theory Spec2Isabelle
  imports Complex_Main "HOL-Library.AList"
begin

section \<open>The SSE service: data model\<close>

text \<open>
  The development embeds \<^verbatim>\<open>SSEService\<close> (features/sse/services/sse-service.ts) and
  the types it uses (features/sse/types/index.ts). Strings are \<^typ>\<open>string\<close>; the
  two characters that cannot be written inside a literal get a name.
\<close>

abbreviation nl :: char where "nl \<equiv> CHR 0x0A"
abbreviation dq :: char where "dq \<equiv> CHR 0x22"
abbreviation bs :: char where "bs \<equiv> CHR 0x5C"

subsection \<open>Values that have a JSON text\<close>

text \<open>
  \<^verbatim>\<open>SSEEvent<T>\<close> carries \<^verbatim>\<open>data: T\<close>, serialised with \<^verbatim>\<open>JSON.stringify\<close>.
  Payloads are modelled as JSON values with integral numbers; the members of an object
  are listed in the order JavaScript enumerates them.
\<close>

datatype json =
    JNull
  | JBool bool
  | JNum int
  | JStr string
  | JArr "json list"
  | JObj "(string \<times> json) list"

text \<open>\<^verbatim>\<open>Number.prototype.toString\<close> on an integral value (of the magnitudes a
  timestamp or a delay has): decimal digits, a minus sign before a negative one.\<close>

fun digits :: "nat \<Rightarrow> string" where
  "digits n = (if n < 10 then [''0123456789'' ! n]
               else digits (n div 10) @ [''0123456789'' ! (n mod 10)])"

declare digits.simps [simp del]

definition Number_toString :: "int \<Rightarrow> string" where
  "Number_toString n = (if n < 0 then CHR ''-'' # digits (nat (- n)) else digits (nat n))"

text \<open>\<^verbatim>\<open>QuoteJSONString\<close>: the two-character escapes, \<^verbatim>\<open>\u00xx\<close> for the other
  control characters, every other character as it is (a \<^typ>\<open>string\<close> holds the bytes
  of well-formed text).\<close>

definition hex2 :: "nat \<Rightarrow> string" where
  "hex2 n = [''0123456789abcdef'' ! (n div 16), ''0123456789abcdef'' ! (n mod 16)]"

definition quote_char :: "char \<Rightarrow> string" where
  "quote_char c =
     (if c = CHR 0x08 then [bs, CHR ''b'']
      else if c = CHR 0x09 then [bs, CHR ''t'']
      else if c = CHR 0x0A then [bs, CHR ''n'']
      else if c = CHR 0x0C then [bs, CHR ''f'']
      else if c = CHR 0x0D then [bs, CHR ''r'']
      else if c = dq then [bs, dq]
      else if c = bs then [bs, bs]
      else if (of_char c :: nat) < 32 then [bs, CHR ''u'', CHR ''0'', CHR ''0''] @ hex2 (of_char c)
      else [c])"

definition QuoteJSONString :: "string \<Rightarrow> string" where
  "QuoteJSONString s = [dq] @ concat (map quote_char s) @ [dq]"

text \<open>\<^verbatim>\<open>Array.prototype.join\<close>.\<close>

fun join :: "string \<Rightarrow> string list \<Rightarrow> string" where
  "join sep [] = []"
| "join sep [x] = x"
| "join sep (x # y # ys) = x @ sep @ join sep (y # ys)"

fun JSON_stringify :: "json \<Rightarrow> string" where
  "JSON_stringify JNull = ''null''"
| "JSON_stringify (JBool b) = (if b then ''true'' else ''false'')"
| "JSON_stringify (JNum n) = Number_toString n"
| "JSON_stringify (JStr s) = QuoteJSONString s"
| "JSON_stringify (JArr vs) = ''['' @ join '','' (map JSON_stringify vs) @ '']''"
| "JSON_stringify (JObj kvs) =
     ''{'' @ join '','' (map (\<lambda>(k, v). QuoteJSONString k @ '':'' @ JSON_stringify v) kvs) @ ''}''"

subsection \<open>Events\<close>

text \<open>
  \<^verbatim>\<open>interface SSEEvent<T> { id?: string; event: string; data: T; retry?: number }\<close>.
  An optional field is an \<^typ>\<open>'a option\<close>; \<^verbatim>\<open>retry\<close> is an integral number of
  milliseconds.
\<close>

record SSEEvent =
  event_id :: "string option"
  event :: string
  data :: json
  retry :: "int option"

text \<open>JavaScript truthiness of \<^verbatim>\<open>string | undefined\<close> and of
  \<^verbatim>\<open>number | undefined\<close>: the empty string and zero are falsy, as \<^verbatim>\<open>undefined\<close> is.\<close>

fun truthy_string :: "string option \<Rightarrow> bool" where
  "truthy_string None = False"
| "truthy_string (Some s) = (s \<noteq> [])"

fun truthy_number :: "int option \<Rightarrow> bool" where
  "truthy_number None = False"
| "truthy_number (Some n) = (n \<noteq> 0)"

text \<open>\<^verbatim>\<open>formatSSEMessage\<close>: the lines are collected, joined with a newline, and two
  newlines are appended. Inside a guard that has found the field truthy, \<open>the\<close> reads
  a field that is there.\<close>

definition formatSSEMessage :: "SSEEvent \<Rightarrow> string" where
  "formatSSEMessage ev =
     (let lines0 = [];
          lines1 = (if truthy_string (event_id ev)
                    then lines0 @ [''id: '' @ the (event_id ev)] else lines0);
          lines2 = lines1 @ [''event: '' @ event ev];
          lines3 = lines2 @ [''data: '' @ JSON_stringify (data ev)];
          lines4 = (if truthy_number (retry ev)
                    then lines3 @ [''retry: '' @ Number_toString (the (retry ev))] else lines3)
      in join [nl] lines4 @ [nl, nl])"

subsection \<open>Stream handles, clients and the service\<close>

text \<open>
  The service reads \<^verbatim>\<open>desiredSize\<close> of a \<^verbatim>\<open>ReadableStreamDefaultController\<close>
  and calls \<^verbatim>\<open>enqueue\<close> and \<^verbatim>\<open>close\<close> on it. The handle is opaque: the model
  records what it answers to the next call (\<^verbatim>\<open>desiredSize\<close> is \<^verbatim>\<open>null\<close> as
  \<open>None\<close>; whether \<^verbatim>\<open>enqueue\<close> and \<^verbatim>\<open>close\<close> throw). Every connection has
  a handle of its own (app/api/sse/route.ts creates one stream per request).
\<close>

record controller =
  desiredSize :: "int option"
  enqueue_throws :: bool
  close_throws :: bool

text \<open>A reading of the system clock: \<^verbatim>\<open>Date.now()\<close> and
  \<^verbatim>\<open>new Date().getTime()\<close> give \<open>getTime\<close>, \<^verbatim>\<open>new Date().toISOString()\<close> gives
  \<open>toISOString\<close>. The clock does not advance inside one synchronous call.\<close>

record date =
  getTime :: int
  toISOString :: string

text \<open>\<^verbatim>\<open>interface SSEClient\<close>; the field \<^verbatim>\<open>id\<close> is \<open>client_id\<close> here.\<close>

record SSEClient =
  client_id :: string
  userId :: "string option"
  response :: controller
  lastPing :: int
  connectedAt :: int

text \<open>\<^verbatim>\<open>SSEServiceConfig\<close> has optional fields; the constructor fills the defaults
  in (\<^verbatim>\<open>Required<SSEServiceConfig>\<close>). The numbers are integral.\<close>

record SSEServiceConfig =
  opt_heartbeatInterval :: "int option"
  opt_clientTimeout :: "int option"
  opt_reconnectDelay :: "int option"
  opt_maxClients :: "int option"

record RequiredConfig =
  heartbeatInterval :: int
  clientTimeout :: int
  reconnectDelay :: int
  maxClients :: int

text \<open>The calls the service makes on the stream handle of a connection.\<close>

datatype stream_call = GetDesiredSize | Enqueue string | Close

text \<open>
  The fields of \<^verbatim>\<open>class SSEService\<close>. \<^verbatim>\<open>clients\<close> is a JavaScript \<^verbatim>\<open>Map\<close>:
  an association list in insertion order, read with \<^const>\<open>map_of\<close>, written with
  \<^const>\<open>AList.update\<close> (\<^verbatim>\<open>Map.set\<close>: a known key keeps its place, a new one goes
  last) and \<^const>\<open>AList.delete\<close> (\<^verbatim>\<open>Map.delete\<close>). \<open>heartbeatTimer\<close> is the
  source's \<^verbatim>\<open>heartbeatInterval\<close>: \<open>True\<close> while the timer handle is not
  \<^verbatim>\<open>null\<close>. Two fields record what the service does to the world around it:
  \<open>timeouts\<close>, the connections whose \<^verbatim>\<open>setTimeout\<close> welcome is still to fire, and
  \<open>stream_calls\<close>, the calls made on stream handles, oldest first, each with the id
  of the connection whose handle it is.
\<close>

record SSEService =
  clients :: "(string \<times> SSEClient) list"
  heartbeatTimer :: bool
  config :: RequiredConfig
  isShuttingDown :: bool
  timeouts :: "string list"
  stream_calls :: "(string \<times> stream_call) list"

text \<open>The two errors the service throws, by their messages, under the names the
  specification gives them.\<close>

datatype error = Error string

abbreviation Unavailable :: error where
  "Unavailable \<equiv> Error ''Service is shutting down''"

abbreviation CapacityExceeded :: error where
  "CapacityExceeded \<equiv> Error ''Maximum client connections reached''"

section \<open>The operations\<close>

text \<open>The constructor: \<^verbatim>\<open>??\<close> takes the default when the field is missing;
  \<^verbatim>\<open>startHeartbeat\<close> installs the interval timer.\<close>

definition nullish :: "'a option \<Rightarrow> 'a \<Rightarrow> 'a" where
  "nullish x d = (case x of None \<Rightarrow> d | Some v \<Rightarrow> v)"

definition SSEService_new :: "SSEServiceConfig option \<Rightarrow> SSEService" where
  "SSEService_new cfg =
     \<lparr>clients = [],
      heartbeatTimer = True,
      config = \<lparr>heartbeatInterval = nullish (Option.bind cfg opt_heartbeatInterval) 30000,
                 clientTimeout = nullish (Option.bind cfg opt_clientTimeout) 90000,
                 reconnectDelay = nullish (Option.bind cfg opt_reconnectDelay) 2000,
                 maxClients = nullish (Option.bind cfg opt_maxClients) 1000\<rparr>,
      isShuttingDown = False,
      timeouts = [],
      stream_calls = []\<rparr>"

text \<open>Recording a call on the handle of connection \<open>k\<close>.\<close>

definition call_stream :: "string \<Rightarrow> stream_call \<Rightarrow> SSEService \<Rightarrow> SSEService" where
  "call_stream k c s = s\<lparr>stream_calls := stream_calls s @ [(k, c)]\<rparr>"

text \<open>
  \<^verbatim>\<open>addClient\<close>. \<open>uuid\<close> is what \<^verbatim>\<open>randomUUID()\<close> returns, \<open>now\<close> the clock. A
  \<^verbatim>\<open>throw\<close> is the \<open>Inl\<close> result; the state comes back beside it.
\<close>

definition addClient ::
  "date \<Rightarrow> string \<Rightarrow> controller \<Rightarrow> string option \<Rightarrow> SSEService \<Rightarrow> (error + string) \<times> SSEService" where
  "addClient now uuid ctrl uid s =
     (if isShuttingDown s then (Inl (Error ''Service is shutting down''), s)
      else if int (length (clients s)) \<ge> maxClients (config s)
      then (Inl (Error ''Maximum client connections reached''), s)
      else
        (let clientId = uuid;
             client = \<lparr>client_id = clientId, userId = uid, response = ctrl,
                        lastPing = getTime now, connectedAt = getTime now\<rparr>
         in (Inr clientId,
             s\<lparr>clients := AList.update clientId client (clients s),
               timeouts := timeouts s @ [clientId]\<rparr>)))"

text \<open>
  \<^verbatim>\<open>removeClient\<close>. \<^verbatim>\<open>client.response\<close> is an object, hence truthy, so
  \<^verbatim>\<open>close()\<close> is always called; when it throws, the \<^verbatim>\<open>catch\<close> logs and the
  function goes on.
\<close>

definition removeClient :: "string \<Rightarrow> SSEService \<Rightarrow> bool \<times> SSEService" where
  "removeClient clientId s =
     (case map_of (clients s) clientId of
        None \<Rightarrow> (False, s)
      | Some client \<Rightarrow>
          (let s1 = call_stream clientId Close s;
               s2 = (if close_throws (response client) then s1 else s1)
           in (True, s2\<lparr>clients := AList.delete clientId (clients s2)\<rparr>)))"

text \<open>
  \<^verbatim>\<open>sendToClient\<close>. Inside the \<^verbatim>\<open>try\<close>: a \<^verbatim>\<open>null\<close> \<^verbatim>\<open>desiredSize\<close>
  removes the client; an \<^verbatim>\<open>enqueue\<close> that throws lands in the \<^verbatim>\<open>catch\<close>, which
  removes it too; otherwise \<^verbatim>\<open>lastPing\<close> of the stored client is set. The chunk is
  the text before \<^verbatim>\<open>TextEncoder\<close> turns it into bytes.
\<close>

definition sendToClient :: "date \<Rightarrow> string \<Rightarrow> SSEEvent \<Rightarrow> SSEService \<Rightarrow> bool \<times> SSEService" where
  "sendToClient now clientId ev s =
     (case map_of (clients s) clientId of
        None \<Rightarrow> (False, s)
      | Some client \<Rightarrow>
          (let eventString = formatSSEMessage ev;
               s1 = call_stream clientId GetDesiredSize s
           in if desiredSize (response client) = None
              then (False, snd (removeClient clientId s1))
              else
                (let s2 = call_stream clientId (Enqueue eventString) s1
                 in if enqueue_throws (response client)
                    then (False, snd (removeClient clientId s2))
                    else (True, s2\<lparr>clients :=
                            AList.update clientId (client\<lparr>lastPing := getTime now\<rparr>) (clients s2)\<rparr>))))"

text \<open>
  \<^verbatim>\<open>for (... of this.clients.entries())\<close> walks the live \<^verbatim>\<open>Map\<close>. The bodies
  below add no entry and delete none but the one being visited, so the walk visits the
  keys present at its start, in order, and finds each with its current value; a key
  that is gone is passed over, as the iterator would.
\<close>

fun sendToUser_loop ::
  "date \<Rightarrow> string \<Rightarrow> SSEEvent \<Rightarrow> string list \<Rightarrow> nat \<times> SSEService \<Rightarrow> nat \<times> SSEService" where
  "sendToUser_loop now uid ev [] (sentCount, s) = (sentCount, s)"
| "sendToUser_loop now uid ev (clientId # ks) (sentCount, s) =
     (case map_of (clients s) clientId of
        None \<Rightarrow> sendToUser_loop now uid ev ks (sentCount, s)
      | Some client \<Rightarrow>
          if userId client = Some uid
          then (case sendToClient now clientId ev s of
                  (sent, s') \<Rightarrow>
                    sendToUser_loop now uid ev ks (if sent then sentCount + 1 else sentCount, s'))
          else sendToUser_loop now uid ev ks (sentCount, s))"

definition sendToUser :: "date \<Rightarrow> string \<Rightarrow> SSEEvent \<Rightarrow> SSEService \<Rightarrow> nat \<times> SSEService" where
  "sendToUser now uid ev s = sendToUser_loop now uid ev (map fst (clients s)) (0, s)"

fun broadcast_loop ::
  "date \<Rightarrow> SSEEvent \<Rightarrow> string option \<Rightarrow> string list \<Rightarrow> nat \<times> SSEService \<Rightarrow> nat \<times> SSEService" where
  "broadcast_loop now ev excludeClientId [] (sentCount, s) = (sentCount, s)"
| "broadcast_loop now ev excludeClientId (clientId # ks) (sentCount, s) =
     (case map_of (clients s) clientId of
        None \<Rightarrow> broadcast_loop now ev excludeClientId ks (sentCount, s)
      | Some client \<Rightarrow>
          if Some clientId \<noteq> excludeClientId
          then (case sendToClient now clientId ev s of
                  (sent, s') \<Rightarrow>
                    broadcast_loop now ev excludeClientId ks
                      (if sent then sentCount + 1 else sentCount, s'))
          else broadcast_loop now ev excludeClientId ks (sentCount, s))"

definition broadcast :: "date \<Rightarrow> SSEEvent \<Rightarrow> string option \<Rightarrow> SSEService \<Rightarrow> nat \<times> SSEService" where
  "broadcast now ev excludeClientId s =
     broadcast_loop now ev excludeClientId (map fst (clients s)) (0, s)"

definition getActiveClients :: "SSEService \<Rightarrow> string list" where
  "getActiveClients s = map fst (clients s)"

definition getClientsByUser :: "string \<Rightarrow> SSEService \<Rightarrow> string list" where
  "getClientsByUser uid s =
     map fst (filter (\<lambda>(clientId, client). userId client = Some uid) (clients s))"

subsection \<open>Statistics\<close>

text \<open>
  JavaScript's \<^verbatim>\<open>/\<close> never throws: a zero divisor gives \<^verbatim>\<open>NaN\<close> or an infinity,
  which is \<open>None\<close> here, as is \<^verbatim>\<open>Math.min()\<close> of no arguments. Quotients are
  exact rationals. \<^verbatim>\<open>Math.round\<close> rounds a half upwards.
\<close>

definition js_divide :: "rat \<Rightarrow> rat \<Rightarrow> rat option" where
  "js_divide a b = (if b = 0 then None else Some (a / b))"

definition Math_round :: "rat \<Rightarrow> int" where
  "Math_round x = \<lfloor>x + 1 / 2\<rfloor>"

fun Math_min :: "int list \<Rightarrow> int option" where
  "Math_min [] = None"
| "Math_min (x # xs) = Some (fold min xs x)"

record SSEServiceStats =
  totalClients :: nat
  authenticatedClients :: nat
  anonymousClients :: nat
  averageConnectionTime :: "int option"
  oldestConnection :: "int option"

definition getStats :: "date \<Rightarrow> SSEService \<Rightarrow> SSEServiceStats" where
  "getStats now s =
     (let connections = map snd (clients s) in
      \<lparr>totalClients = length (clients s),
       authenticatedClients = length (filter (\<lambda>c. truthy_string (userId c)) connections),
       anonymousClients = length (filter (\<lambda>c. \<not> truthy_string (userId c)) connections),
       averageConnectionTime =
         (if length connections > 0
          then map_option Math_round
                 (Option.bind
                    (js_divide
                       (of_int (foldl (\<lambda>sum c. sum + (getTime now - connectedAt c)) 0 connections))
                       (of_nat (length connections)))
                    (\<lambda>q. js_divide q 1000))
          else Some 0),
       oldestConnection =
         (if length connections > 0
          then map_option Math_round
                 (Option.bind (Math_min (map connectedAt connections))
                    (\<lambda>m. js_divide (of_int (getTime now - m)) 1000))
          else Some 0)\<rparr>)"

subsection \<open>Heartbeat, shutdown and the welcome timer\<close>

definition ping_event :: "date \<Rightarrow> SSEEvent" where
  "ping_event now =
     \<lparr>event_id = None, event = ''ping'',
      data = JObj [(''timestamp'', JNum (getTime now)), (''serverTime'', JStr (toISOString now))],
      retry = None\<rparr>"

definition connected_event :: "date \<Rightarrow> string \<Rightarrow> SSEEvent" where
  "connected_event now clientId =
     \<lparr>event_id = None, event = ''connected'',
      data = JObj [(''clientId'', JStr clientId), (''timestamp'', JNum (getTime now)),
                   (''serverTime'', JStr (toISOString now))],
      retry = None\<rparr>"

definition shutdown_event :: "date \<Rightarrow> SSEEvent" where
  "shutdown_event now =
     \<lparr>event_id = None, event = ''server-shutdown'',
      data = JObj [(''message'', JStr ''Server is shutting down''), (''timestamp'', JNum (getTime now))],
      retry = None\<rparr>"

text \<open>The body of the interval callback of \<^verbatim>\<open>startHeartbeat\<close>: the walk over the
  map collects \<^verbatim>\<open>staleClients\<close>, which are removed after it.\<close>

fun heartbeat_loop ::
  "date \<Rightarrow> string list \<Rightarrow> string list \<times> SSEService \<Rightarrow> string list \<times> SSEService" where
  "heartbeat_loop now [] (staleClients, s) = (staleClients, s)"
| "heartbeat_loop now (clientId # ks) (staleClients, s) =
     (case map_of (clients s) clientId of
        None \<Rightarrow> heartbeat_loop now ks (staleClients, s)
      | Some client \<Rightarrow>
          (let timeSinceLastPing = getTime now - lastPing client in
           if timeSinceLastPing > clientTimeout (config s)
           then heartbeat_loop now ks (staleClients @ [clientId], s)
           else (case sendToClient now clientId (ping_event now) s of
                   (sent, s') \<Rightarrow>
                     if \<not> sent then heartbeat_loop now ks (staleClients @ [clientId], s')
                     else heartbeat_loop now ks (staleClients, s'))))"

definition heartbeat_tick :: "date \<Rightarrow> SSEService \<Rightarrow> SSEService" where
  "heartbeat_tick now s =
     (if isShuttingDown s then s
      else (case heartbeat_loop now (map fst (clients s)) ([], s) of
              (staleClients, s1) \<Rightarrow> fold (\<lambda>clientId t. snd (removeClient clientId t)) staleClients s1))"

text \<open>\<^verbatim>\<open>cleanup\<close>: the timer is cleared, then every id of the snapshot
  \<^verbatim>\<open>Array.from(this.clients.keys())\<close> is sent the shutdown event and removed.\<close>

definition cleanup :: "date \<Rightarrow> SSEService \<Rightarrow> SSEService" where
  "cleanup now s =
     (let s1 = (if heartbeatTimer s then s\<lparr>heartbeatTimer := False\<rparr> else s);
          clientIds = map fst (clients s1)
      in fold (\<lambda>clientId t.
                 snd (removeClient clientId (snd (sendToClient now clientId (shutdown_event now) t))))
           clientIds s1)"

text \<open>The handler \<^verbatim>\<open>setupGracefulShutdown\<close> installs for SIGTERM and SIGINT.\<close>

definition shutdown :: "date \<Rightarrow> SSEService \<Rightarrow> SSEService" where
  "shutdown now s = cleanup now (s\<lparr>isShuttingDown := True\<rparr>)"

text \<open>The \<^verbatim>\<open>setTimeout\<close> callback of \<^verbatim>\<open>addClient\<close>, when it fires.\<close>

definition welcome_timeout :: "date \<Rightarrow> string \<Rightarrow> SSEService \<Rightarrow> SSEService" where
  "welcome_timeout now clientId s =
     snd (sendToClient now clientId (connected_event now clientId)
            (s\<lparr>timeouts := remove1 clientId (timeouts s)\<rparr>))"

subsection \<open>Runs of the service\<close>

text \<open>
  What can happen to a service object: a call of one of its public methods, one of its
  timers firing, a termination signal. A timer fires only while it is installed.
\<close>

datatype call =
    AddClient string controller "string option"
  | RemoveClient string
  | SendToClient string SSEEvent
  | SendToUser string SSEEvent
  | Broadcast SSEEvent "string option"
  | Cleanup
  | HeartbeatFires
  | WelcomeFires string
  | Signal

fun exec :: "date \<times> call \<Rightarrow> SSEService \<Rightarrow> SSEService" where
  "exec (now, AddClient uuid ctrl uid) s = snd (addClient now uuid ctrl uid s)"
| "exec (now, RemoveClient clientId) s = snd (removeClient clientId s)"
| "exec (now, SendToClient clientId ev) s = snd (sendToClient now clientId ev s)"
| "exec (now, SendToUser uid ev) s = snd (sendToUser now uid ev s)"
| "exec (now, Broadcast ev excludeClientId) s = snd (broadcast now ev excludeClientId s)"
| "exec (now, Cleanup) s = cleanup now s"
| "exec (now, HeartbeatFires) s = (if heartbeatTimer s then heartbeat_tick now s else s)"
| "exec (now, WelcomeFires clientId) s =
     (if clientId \<in> set (timeouts s) then welcome_timeout now clientId s else s)"
| "exec (now, Signal) s = shutdown now s"

definition run :: "(date \<times> call) list \<Rightarrow> SSEService \<Rightarrow> SSEService" where
  "run cs s = fold exec cs s"

section \<open>Notions used in the statements\<close>

subsection \<open>The specification's words\<close>

text \<open>
  The wire grammar in the words of the specification: the \<^verbatim>\<open>id\<close> line when the
  event has an id, the \<^verbatim>\<open>event\<close> and \<^verbatim>\<open>data\<close> lines, the \<^verbatim>\<open>retry\<close> line when
  the event has a retry hint, and one blank line.
\<close>

definition wire_grammar :: "SSEEvent \<Rightarrow> string" where
  "wire_grammar ev =
     (case event_id ev of None \<Rightarrow> [] | Some i \<Rightarrow> ''id: '' @ i @ [nl]) @
     ''event: '' @ event ev @ [nl] @
     ''data: '' @ JSON_stringify (data ev) @ [nl] @
     (case retry ev of None \<Rightarrow> [] | Some r \<Rightarrow> ''retry: '' @ Number_toString r @ [nl]) @
     [nl]"

text \<open>
  The specification's \<^verbatim>\<open>sendToUser\<close>: the ids are resolved first, then
  \<^verbatim>\<open>sendTo\<close> is called for each, and the successful sends are counted.
\<close>

fun send_each :: "date \<Rightarrow> SSEEvent \<Rightarrow> string list \<Rightarrow> nat \<times> SSEService \<Rightarrow> nat \<times> SSEService" where
  "send_each now ev [] (n, s) = (n, s)"
| "send_each now ev (k # ks) (n, s) =
     (case sendToClient now k ev s of
        (sent, s') \<Rightarrow> send_each now ev ks (if sent then n + 1 else n, s'))"

text \<open>
  A sequence of register and remove calls, and beside the service the set the
  specification describes: the ids that successful registrations returned and that no
  later remove call named.
\<close>

datatype registry_call = Register date string controller "string option" | Remove string

fun track :: "registry_call list \<Rightarrow> SSEService \<times> string set \<Rightarrow> SSEService \<times> string set" where
  "track [] (s, live) = (s, live)"
| "track (Register now uuid ctrl uid # rest) (s, live) =
     (case addClient now uuid ctrl uid s of
        (Inr clientId, s') \<Rightarrow> track rest (s', insert clientId live)
      | (Inl err, s') \<Rightarrow> track rest (s', live))"
| "track (Remove clientId # rest) (s, live) =
     track rest (snd (removeClient clientId s), live - {clientId})"

fun call_of :: "registry_call \<Rightarrow> date \<times> call" where
  "call_of (Register now uuid ctrl uid) = (now, AddClient uuid ctrl uid)"
| "call_of (Remove clientId) = (\<lparr>getTime = 0, toISOString = []\<rparr>, RemoveClient clientId)"

subsection \<open>What a send does to one connection\<close>

text \<open>
  A write to a client succeeds when its handle reports a \<^verbatim>\<open>desiredSize\<close> other
  than \<^verbatim>\<open>null\<close> and \<^verbatim>\<open>enqueue\<close> does not throw. \<open>attempt_calls\<close> are the calls
  \<^verbatim>\<open>sendToClient\<close> makes on the handle while it tries to write, \<open>send_calls\<close> all
  the calls of one \<^verbatim>\<open>sendToClient\<close>, the \<^verbatim>\<open>close\<close> of the removal included;
  \<open>send_entry\<close> is what the send leaves of the client's map entry.
\<close>

definition writable :: "SSEClient \<Rightarrow> bool" where
  "writable c = (desiredSize (response c) \<noteq> None \<and> \<not> enqueue_throws (response c))"

definition attempt_calls :: "string \<Rightarrow> string \<Rightarrow> SSEClient \<Rightarrow> (string \<times> stream_call) list" where
  "attempt_calls k msg c =
     (k, GetDesiredSize) # (if desiredSize (response c) = None then [] else [(k, Enqueue msg)])"

definition send_calls :: "string \<Rightarrow> string \<Rightarrow> SSEClient \<Rightarrow> (string \<times> stream_call) list" where
  "send_calls k msg c = attempt_calls k msg c @ (if writable c then [] else [(k, Close)])"

definition send_entry :: "date \<Rightarrow> string \<times> SSEClient \<Rightarrow> (string \<times> SSEClient) list" where
  "send_entry now e = (if writable (snd e) then [(fst e, (snd e)\<lparr>lastPing := getTime now\<rparr>)] else [])"

text \<open>The heartbeat's staleness test, and the stream calls made between two states.\<close>

definition timed_out :: "date \<Rightarrow> SSEService \<Rightarrow> SSEClient \<Rightarrow> bool" where
  "timed_out now s c = (getTime now - lastPing c > clientTimeout (config s))"

definition calls_since :: "SSEService \<Rightarrow> SSEService \<Rightarrow> (string \<times> stream_call) list" where
  "calls_since s s' = drop (length (stream_calls s)) (stream_calls s')"

text \<open>The common shape of the loops of \<^verbatim>\<open>sendToUser\<close> and \<^verbatim>\<open>broadcast\<close>, with the
  test on the entry as a parameter.\<close>

fun send_where ::
  "(string \<Rightarrow> SSEClient \<Rightarrow> bool) \<Rightarrow> date \<Rightarrow> SSEEvent \<Rightarrow> string list \<Rightarrow> nat \<times> SSEService \<Rightarrow> nat \<times> SSEService" where
  "send_where P now ev [] (n, s) = (n, s)"
| "send_where P now ev (k # ks) (n, s) =
     (case map_of (clients s) k of
        None \<Rightarrow> send_where P now ev ks (n, s)
      | Some c \<Rightarrow>
          if P k c
          then (case sendToClient now k ev s of
                  (sent, s') \<Rightarrow> send_where P now ev ks (if sent then n + 1 else n, s'))
          else send_where P now ev ks (n, s))"

text \<open>
  What every run preserves: the keys of the map are distinct, as the keys of a
  \<^verbatim>\<open>Map\<close> are, and a service that is shutting down holds no client.
\<close>

definition registry_inv :: "SSEService \<Rightarrow> bool" where
  "registry_inv s = (distinct (map fst (clients s)) \<and> (isShuttingDown s \<longrightarrow> clients s = []))"

subsection \<open>A small service to evaluate on\<close>

definition demo_date :: "int \<Rightarrow> date" where
  "demo_date t = \<lparr>getTime = t, toISOString = ''2024-01-01T00:00:00.000Z''\<rparr>"

definition open_stream :: controller where
  "open_stream = \<lparr>desiredSize = Some 1, enqueue_throws = False, close_throws = False\<rparr>"

definition closed_stream :: controller where
  "closed_stream = \<lparr>desiredSize = Some 0, enqueue_throws = True, close_throws = True\<rparr>"

definition demo_config :: "int \<Rightarrow> SSEServiceConfig" where
  "demo_config n = \<lparr>opt_heartbeatInterval = None, opt_clientTimeout = None,
                    opt_reconnectDelay = None, opt_maxClients = Some n\<rparr>"

definition demo_calls :: "(date \<times> call) list" where
  "demo_calls =
     [(demo_date 1000, AddClient ''c1'' open_stream (Some ''u1'')),
      (demo_date 2000, AddClient ''c2'' closed_stream None),
      (demo_date 3000, AddClient ''c3'' open_stream (Some []))]"

definition demo_c1 :: SSEClient where
  "demo_c1 = \<lparr>client_id = ''c1'', userId = Some ''u1'', response = open_stream,
              lastPing = 1000, connectedAt = 1000\<rparr>"

definition demo_c2 :: SSEClient where
  "demo_c2 = \<lparr>client_id = ''c2'', userId = None, response = closed_stream,
              lastPing = 2000, connectedAt = 2000\<rparr>"

definition demo_c3 :: SSEClient where
  "demo_c3 = \<lparr>client_id = ''c3'', userId = Some [], response = open_stream,
              lastPing = 3000, connectedAt = 3000\<rparr>"

definition demo_service :: SSEService where
  "demo_service =
     \<lparr>clients = [(''c1'', demo_c1), (''c2'', demo_c2), (''c3'', demo_c3)],
      heartbeatTimer = True,
      config = \<lparr>heartbeatInterval = 30000, clientTimeout = 90000, reconnectDelay = 2000, maxClients = 1000\<rparr>,
      isShuttingDown = False,
      timeouts = [''c1'', ''c2'', ''c3''],
      stream_calls = []\<rparr>"

section \<open>Lemmas\<close>

subsection \<open>The encoder\<close>

lemma formatSSEMessage_lines:
  "formatSSEMessage ev =
     (if truthy_string (event_id ev) then ''id: '' @ the (event_id ev) @ [nl] else []) @
     ''event: '' @ event ev @ [nl] @
     ''data: '' @ JSON_stringify (data ev) @ [nl] @
     (if truthy_number (retry ev) then ''retry: '' @ Number_toString (the (retry ev)) @ [nl] else []) @
     [nl]"
  by (simp add: formatSSEMessage_def)

lemma wire_grammar_truthy:
  assumes "event_id ev \<noteq> Some []" and "retry ev \<noteq> Some 0"
  shows "formatSSEMessage ev = wire_grammar ev"
proof -
  have i: "(if truthy_string (event_id ev) then ''id: '' @ the (event_id ev) @ [nl] else []) =
           (case event_id ev of None \<Rightarrow> [] | Some i \<Rightarrow> ''id: '' @ i @ [nl])"
    using assms(1) by (cases "event_id ev") simp_all
  have r: "(if truthy_number (retry ev) then ''retry: '' @ Number_toString (the (retry ev)) @ [nl] else []) =
           (case retry ev of None \<Rightarrow> [] | Some r \<Rightarrow> ''retry: '' @ Number_toString r @ [nl])"
    using assms(2) by (cases "retry ev") simp_all
  show ?thesis
    unfolding formatSSEMessage_lines wire_grammar_def i r ..
qed

subsection \<open>The map, one send, and the loops\<close>

lemma map_of_mid:
  "distinct (map fst (pre @ (k, c) # post)) \<Longrightarrow> map_of (pre @ (k, c) # post) k = Some c"
  by (induction pre) auto

lemma delete_mid:
  "distinct (map fst (pre @ (k, c) # post)) \<Longrightarrow> AList.delete k (pre @ (k, c) # post) = pre @ post"
  by (induction pre) auto

lemma update_mid:
  "distinct (map fst (pre @ (k, c) # post)) \<Longrightarrow>
   AList.update k c' (pre @ (k, c) # post) = pre @ (k, c') # post"
  by (induction pre) auto

lemma removeClient_absent:
  "map_of (clients s) k = None \<Longrightarrow> removeClient k s = (False, s)"
  by (simp add: removeClient_def)

lemma removeClient_present:
  "map_of (clients s) k = Some c \<Longrightarrow>
   removeClient k s =
     (True, s\<lparr>clients := AList.delete k (clients s), stream_calls := stream_calls s @ [(k, Close)]\<rparr>)"
  by (simp add: removeClient_def call_stream_def)

lemma sendToClient_absent:
  "map_of (clients s) k = None \<Longrightarrow> sendToClient now k ev s = (False, s)"
  by (simp add: sendToClient_def)

lemma sendToClient_present:
  "map_of (clients s) k = Some c \<Longrightarrow>
   sendToClient now k ev s =
     (writable c,
      s\<lparr>clients := (if writable c then AList.update k (c\<lparr>lastPing := getTime now\<rparr>) (clients s)
                     else AList.delete k (clients s)),
        stream_calls := stream_calls s @ send_calls k (formatSSEMessage ev) c\<rparr>)"
  by (simp add: sendToClient_def call_stream_def removeClient_def writable_def send_calls_def attempt_calls_def Let_def)

lemma sendToClient_mid:
  assumes "clients s = pre @ (k, c) # post" and "distinct (map fst (clients s))"
  shows "sendToClient now k ev s =
     (writable c,
      s\<lparr>clients := pre @ send_entry now (k, c) @ post,
        stream_calls := stream_calls s @ send_calls k (formatSSEMessage ev) c\<rparr>)"
proof -
  from assms have d: "distinct (map fst (pre @ (k, c) # post))" by simp
  have m: "map_of (clients s) k = Some c" using assms(1) map_of_mid[OF d] by simp
  show ?thesis
    using delete_mid[OF d] update_mid[OF d]
    by (simp add: sendToClient_present[OF m] assms(1) send_entry_def)
qed

lemma sendToUser_loop_send_where:
  "sendToUser_loop now uid ev ks x = send_where (\<lambda>k c. userId c = Some uid) now ev ks x"
  by (induction now uid ev ks x rule: sendToUser_loop.induct) (auto split: option.splits prod.splits)

lemma broadcast_loop_send_where:
  "broadcast_loop now ev ex ks x = send_where (\<lambda>k c. Some k \<noteq> ex) now ev ks x"
  by (induction now ev ex ks x rule: broadcast_loop.induct) (auto split: option.splits prod.splits)

lemma distinct_send_entry:
  "distinct (map fst (pre @ (k, c) # post)) \<Longrightarrow>
   distinct (map fst (pre @ send_entry now (k, c) @ post))"
  by (auto simp: send_entry_def)

lemma send_where_closed:
  assumes "clients s = pre @ todo" and "distinct (map fst (clients s))"
  shows "send_where P now ev (map fst todo) (n, s) =
     (n + length (filter (\<lambda>(k, c). P k c \<and> writable c) todo),
      s\<lparr>clients := pre @ concat (map (\<lambda>(k, c). if P k c then send_entry now (k, c) else [(k, c)]) todo),
        stream_calls := stream_calls s @
          concat (map (\<lambda>(k, c). if P k c then send_calls k (formatSSEMessage ev) c else []) todo)\<rparr>)"
  using assms
proof (induction todo arbitrary: pre n s)
  case Nil
  then have "s\<lparr>clients := pre\<rparr> = s" by (cases s) simp
  then show ?case by simp
next
  case (Cons e todo)
  obtain k c where e: "e = (k, c)" by (cases e)
  from Cons.prems have cl: "clients s = pre @ (k, c) # todo"
    and d: "distinct (map fst (pre @ (k, c) # todo))" by (simp_all add: e)
  have m: "map_of (clients s) k = Some c" using map_of_mid[OF d] cl by simp
  show ?case
  proof (cases "P k c")
    case True
    let ?s1 = "s\<lparr>clients := pre @ send_entry now (k, c) @ todo,
                  stream_calls := stream_calls s @ send_calls k (formatSSEMessage ev) c\<rparr>"
    have snd1: "sendToClient now k ev s = (writable c, ?s1)"
      using sendToClient_mid[OF cl Cons.prems(2)] .
    have c1: "clients ?s1 = (pre @ send_entry now (k, c)) @ todo" by simp
    have d1: "distinct (map fst (clients ?s1))" using distinct_send_entry[OF d] by simp
    show ?thesis
      using Cons.IH[OF c1 d1, of "if writable c then n + 1 else n"] True
      by (simp add: e m snd1)
  next
    case False
    have c1: "clients s = (pre @ [(k, c)]) @ todo" using cl by simp
    show ?thesis
      using Cons.IH[OF c1 Cons.prems(2), of n] False
      by (simp add: e m)
  qed
qed

lemma timed_out_frame [simp]:
  "timed_out now (s\<lparr>clients := cl, stream_calls := sc\<rparr>) = timed_out now s"
  by (simp add: timed_out_def fun_eq_iff)

lemma heartbeat_loop_closed:
  assumes "clients s = pre @ todo" and "distinct (map fst (clients s))"
  shows "heartbeat_loop now (map fst todo) (stale, s) =
     (stale @ map fst (filter (\<lambda>(k, c). timed_out now s c \<or> \<not> writable c) todo),
      s\<lparr>clients := pre @ concat (map (\<lambda>(k, c). if timed_out now s c then [(k, c)] else send_entry now (k, c)) todo),
        stream_calls := stream_calls s @
          concat (map (\<lambda>(k, c). if timed_out now s c then []
                                 else send_calls k (formatSSEMessage (ping_event now)) c) todo)\<rparr>)"
  using assms
proof (induction todo arbitrary: pre stale s)
  case Nil
  then have "s\<lparr>clients := pre\<rparr> = s" by (cases s) simp
  then show ?case by simp
next
  case (Cons e todo)
  obtain k c where e: "e = (k, c)" by (cases e)
  from Cons.prems have cl: "clients s = pre @ (k, c) # todo"
    and d: "distinct (map fst (pre @ (k, c) # todo))" by (simp_all add: e)
  have m: "map_of (clients s) k = Some c" using map_of_mid[OF d] cl by simp
  show ?case
  proof (cases "timed_out now s c")
    case True
    have c1: "clients s = (pre @ [(k, c)]) @ todo" using cl by simp
    show ?thesis
      using Cons.IH[OF c1 Cons.prems(2), of "stale @ [k]"] True
      by (simp add: e m timed_out_def)
  next
    case False
    let ?s1 = "s\<lparr>clients := pre @ send_entry now (k, c) @ todo,
                  stream_calls := stream_calls s @ send_calls k (formatSSEMessage (ping_event now)) c\<rparr>"
    have snd1: "sendToClient now k (ping_event now) s = (writable c, ?s1)"
      using sendToClient_mid[OF cl Cons.prems(2)] .
    have c1: "clients ?s1 = (pre @ send_entry now (k, c)) @ todo" by simp
    have d1: "distinct (map fst (clients ?s1))" using distinct_send_entry[OF d] by simp
    have F: "\<not> getTime now - lastPing c > clientTimeout (config s)"
      using False by (simp add: timed_out_def)
    show ?thesis
      using Cons.IH[OF c1 d1, of "if writable c then stale else stale @ [k]"] False F
      by (cases "writable c") (simp_all add: e m snd1)
  qed
qed

lemma map_of_after:
  "k \<notin> fst ` set pre \<Longrightarrow> map_of (pre @ (k, c) # post) k = Some c"
  by (induction pre) auto

lemma delete_after:
  "k \<notin> fst ` set pre \<Longrightarrow> k \<notin> fst ` set post \<Longrightarrow>
   AList.delete k (pre @ (k, c) # post) = pre @ post"
  by (induction pre) auto

lemma keys_concat_sub:
  assumes "\<And>k c. fst ` set (g (k, c)) \<subseteq> {k}"
  shows "fst ` set (concat (map g todo)) \<subseteq> fst ` set todo"
  using assms by (induction todo) force+

lemma remove_stale_closed:
  assumes "clients s = pre @ concat (map (\<lambda>(k, c). if T c then [(k, c)] else send_entry now (k, c)) todo)"
    and "distinct (map fst (pre @ todo))"
  shows "fold (\<lambda>clientId t. snd (removeClient clientId t))
           (map fst (filter (\<lambda>(k, c). T c \<or> \<not> writable c) todo)) s =
     s\<lparr>clients := pre @ concat (map (\<lambda>(k, c). if T c then [] else send_entry now (k, c)) todo),
       stream_calls := stream_calls s @ map (\<lambda>(k, c). (k, Close)) (filter (\<lambda>(k, c). T c) todo)\<rparr>"
  using assms
proof (induction todo arbitrary: pre s)
  case Nil
  then have "s\<lparr>clients := pre\<rparr> = s" by (cases s) simp
  then show ?case by simp
next
  case (Cons e todo)
  obtain k c where e: "e = (k, c)" by (cases e)
  let ?g = "\<lambda>(k, c). if T c then [(k, c)] else send_entry now (k, c)"
  let ?R = "concat (map ?g todo)"
  have sub: "fst ` set ?R \<subseteq> fst ` set todo"
    by (rule keys_concat_sub) (auto simp: send_entry_def)
  from Cons.prems(2) have kpre: "k \<notin> fst ` set pre" and ktodo: "k \<notin> fst ` set todo"
    and dpt: "distinct (map fst (pre @ todo))" by (auto simp: e)
  have kR: "k \<notin> fst ` set ?R" using sub ktodo by blast
  show ?case
  proof (cases "T c")
    case True
    have cl: "clients s = pre @ (k, c) # ?R" using Cons.prems(1) True by (simp add: e)
    have m: "map_of (clients s) k = Some c" using map_of_after[OF kpre] by (simp add: cl)
    have del: "AList.delete k (clients s) = pre @ ?R" using delete_after[OF kpre kR] by (simp add: cl)
    let ?s1 = "s\<lparr>clients := pre @ ?R, stream_calls := stream_calls s @ [(k, Close)]\<rparr>"
    have r: "removeClient k s = (True, ?s1)" using removeClient_present[OF m] del by simp
    have c1: "clients ?s1 = pre @ ?R" by simp
    show ?thesis using Cons.IH[OF c1 dpt] True by (simp add: e r)
  next
    case False
    show ?thesis
    proof (cases "writable c")
      case True
      have c1: "clients s = (pre @ [(k, c\<lparr>lastPing := getTime now\<rparr>)]) @ ?R"
        using Cons.prems(1) False True by (simp add: e send_entry_def)
      have d1: "distinct (map fst ((pre @ [(k, c\<lparr>lastPing := getTime now\<rparr>)]) @ todo))"
        using Cons.prems(2) by (auto simp: e)
      show ?thesis using Cons.IH[OF c1 d1] False True by (simp add: e send_entry_def)
    next
      case nw: False
      have cl: "clients s = pre @ ?R" using Cons.prems(1) False nw by (simp add: e send_entry_def)
      have m: "map_of (clients s) k = None" using kpre kR by (simp add: cl map_of_eq_None_iff)
      have r: "removeClient k s = (False, s)" using removeClient_absent[OF m] .
      show ?thesis using Cons.IH[OF cl dpt] False nw by (simp add: e r send_entry_def)
    qed
  qed
qed

lemma heartbeat_tick_closed:
  assumes "\<not> isShuttingDown s" and "distinct (map fst (clients s))"
  shows "heartbeat_tick now s =
     s\<lparr>clients := concat (map (\<lambda>(k, c). if timed_out now s c then [] else send_entry now (k, c)) (clients s)),
       stream_calls := stream_calls s @
          concat (map (\<lambda>(k, c). if timed_out now s c then []
                                 else send_calls k (formatSSEMessage (ping_event now)) c) (clients s)) @
          map (\<lambda>(k, c). (k, Close)) (filter (\<lambda>(k, c). timed_out now s c) (clients s))\<rparr>"
proof -
  let ?s1 = "s\<lparr>clients := [] @ concat (map (\<lambda>(k, c). if timed_out now s c then [(k, c)] else send_entry now (k, c)) (clients s)),
        stream_calls := stream_calls s @
          concat (map (\<lambda>(k, c). if timed_out now s c then []
                                 else send_calls k (formatSSEMessage (ping_event now)) c) (clients s))\<rparr>"
  have loop: "heartbeat_loop now (map fst (clients s)) ([], s) =
      ([] @ map fst (filter (\<lambda>(k, c). timed_out now s c \<or> \<not> writable c) (clients s)), ?s1)"
    by (rule heartbeat_loop_closed) (simp_all add: assms)
  have c1: "clients ?s1 = [] @ concat (map (\<lambda>(k, c). if timed_out now s c then [(k, c)] else send_entry now (k, c)) (clients s))"
    by simp
  have d1: "distinct (map fst ([] @ clients s))" using assms by simp
  show ?thesis
    using remove_stale_closed[OF c1 d1] assms(1)
    by (simp add: heartbeat_tick_def loop)
qed

lemma cleanup_fold_closed:
  assumes "clients s = pre @ todo" and "distinct (map fst (clients s))"
  shows "fold (\<lambda>clientId t. snd (removeClient clientId (snd (sendToClient now clientId ev t))))
           (map fst todo) s =
     s\<lparr>clients := pre,
       stream_calls := stream_calls s @
         concat (map (\<lambda>(k, c). send_calls k (formatSSEMessage ev) c @
                                (if writable c then [(k, Close)] else [])) todo)\<rparr>"
  using assms
proof (induction todo arbitrary: s)
  case Nil
  then have "s\<lparr>clients := pre\<rparr> = s" by (cases s) simp
  then show ?case by simp
next
  case (Cons e todo)
  obtain k c where e: "e = (k, c)" by (cases e)
  from Cons.prems have cl: "clients s = pre @ (k, c) # todo"
    and d: "distinct (map fst (pre @ (k, c) # todo))" by (simp_all add: e)
  from d have kpre: "k \<notin> fst ` set pre" and ktodo: "k \<notin> fst ` set todo"
    and dpt: "distinct (map fst (pre @ todo))" by auto
  let ?s1 = "s\<lparr>clients := pre @ send_entry now (k, c) @ todo,
                stream_calls := stream_calls s @ send_calls k (formatSSEMessage ev) c\<rparr>"
  have snd1: "sendToClient now k ev s = (writable c, ?s1)"
    using sendToClient_mid[OF cl Cons.prems(2)] .
  let ?s2 = "s\<lparr>clients := pre @ todo,
                stream_calls := stream_calls s @ send_calls k (formatSSEMessage ev) c @
                   (if writable c then [(k, Close)] else [])\<rparr>"
  have r: "snd (removeClient k ?s1) = ?s2"
  proof (cases "writable c")
    case True
    have m: "map_of (clients ?s1) k = Some (c\<lparr>lastPing := getTime now\<rparr>)"
      using map_of_after[OF kpre] True by (simp add: send_entry_def)
    have del: "AList.delete k (clients ?s1) = pre @ todo"
      using delete_after[OF kpre ktodo] True by (simp add: send_entry_def)
    show ?thesis using removeClient_present[OF m] True del by (simp add: send_entry_def)
  next
    case False
    have m: "map_of (clients ?s1) k = None"
      using kpre ktodo False by (simp add: send_entry_def map_of_eq_None_iff)
    show ?thesis using removeClient_absent[OF m] False by (simp add: send_entry_def)
  qed
  have c2: "clients ?s2 = pre @ todo" by simp
  have d2: "distinct (map fst (clients ?s2))" using dpt by simp
  show ?case using Cons.IH[OF c2 d2] by (simp add: e snd1 r)
qed

lemma cleanup_closed:
  assumes "distinct (map fst (clients s))"
  shows "cleanup now s =
     s\<lparr>heartbeatTimer := False, clients := [],
       stream_calls := stream_calls s @
         concat (map (\<lambda>(k, c). send_calls k (formatSSEMessage (shutdown_event now)) c @
                                (if writable c then [(k, Close)] else [])) (clients s))\<rparr>"
proof -
  let ?s1 = "if heartbeatTimer s then s\<lparr>heartbeatTimer := False\<rparr> else s"
  have e1: "?s1 = s\<lparr>heartbeatTimer := False\<rparr>" by (cases s) simp
  have c1: "clients (s\<lparr>heartbeatTimer := False\<rparr>) = [] @ clients s" by simp
  have d1: "distinct (map fst (clients (s\<lparr>heartbeatTimer := False\<rparr>)))" using assms by simp
  show ?thesis
    unfolding cleanup_def Let_def e1
    using cleanup_fold_closed[OF c1 d1, of now "shutdown_event now"] by simp
qed

lemma distinct_concat_entries:
  assumes "distinct (map fst al)"
    and "\<And>k c. g (k, c) = [] \<or> (\<exists>c'. g (k, c) = [(k, c')])"
  shows "distinct (map fst (concat (map g al)))"
  using assms(1)
proof (induction al)
  case Nil
  show ?case by simp
next
  case (Cons e al)
  obtain k c where e: "e = (k, c)" by (cases e)
  have sub: "fst ` set (concat (map g al)) \<subseteq> fst ` set al"
  proof (rule keys_concat_sub)
    fix k c show "fst ` set (g (k, c)) \<subseteq> {k}" using assms(2)[of k c] by auto
  qed
  from Cons.prems have k: "k \<notin> fst ` set al" and d: "distinct (map fst al)" by (auto simp: e)
  from k sub have k': "k \<notin> fst ` set (concat (map g al))" by blast
  from assms(2)[of k c] show ?case
  proof
    assume "g (k, c) = []"
    then show ?thesis using Cons.IH[OF d] by (simp add: e)
  next
    assume "\<exists>c'. g (k, c) = [(k, c')]"
    then obtain c' where "g (k, c) = [(k, c')]" ..
    then show ?thesis using Cons.IH[OF d] k' by (simp add: e del: set_concat)
  qed
qed

lemma send_where_all:
  assumes "distinct (map fst (clients s))"
  shows "send_where P now ev (map fst (clients s)) (0, s) =
     (length (filter (\<lambda>(k, c). P k c \<and> writable c) (clients s)),
      s\<lparr>clients := concat (map (\<lambda>(k, c). if P k c then send_entry now (k, c) else [(k, c)]) (clients s)),
        stream_calls := stream_calls s @
          concat (map (\<lambda>(k, c). if P k c then send_calls k (formatSSEMessage ev) c else []) (clients s))\<rparr>)"
  using send_where_closed[of s "[]" "clients s" P now ev 0] assms by simp

lemma inv_new: "registry_inv (SSEService_new cfg)"
  by (simp add: registry_inv_def SSEService_new_def)

lemma inv_addClient: "registry_inv s \<Longrightarrow> registry_inv (snd (addClient now uuid ctrl uid s))"
  by (auto simp: registry_inv_def addClient_def Let_def AList.distinct_update)

lemma inv_removeClient: "registry_inv s \<Longrightarrow> registry_inv (snd (removeClient k s))"
  by (auto simp: registry_inv_def removeClient_def call_stream_def Let_def AList.distinct_delete
           split: option.splits)

lemma inv_sendToClient: "registry_inv s \<Longrightarrow> registry_inv (snd (sendToClient now k ev s))"
  by (auto simp: registry_inv_def sendToClient_def removeClient_def call_stream_def Let_def
                 AList.distinct_delete AList.distinct_update
           split: option.splits)

lemma inv_send_where:
  assumes "registry_inv s"
  shows "registry_inv (snd (send_where P now ev (map fst (clients s)) (0, s)))"
proof -
  from assms have d: "distinct (map fst (clients s))" by (simp add: registry_inv_def)
  have "distinct (map fst (concat (map (\<lambda>(k, c). if P k c then send_entry now (k, c) else [(k, c)]) (clients s))))"
    by (rule distinct_concat_entries[OF d]) (auto simp: send_entry_def)
  then show ?thesis using assms by (auto simp: send_where_all[OF d] registry_inv_def)
qed

lemma inv_heartbeat_tick:
  assumes "registry_inv s"
  shows "registry_inv (heartbeat_tick now s)"
proof (cases "isShuttingDown s")
  case True
  then show ?thesis using assms by (simp add: heartbeat_tick_def)
next
  case False
  from assms have d: "distinct (map fst (clients s))" by (simp add: registry_inv_def)
  have "distinct (map fst (concat (map (\<lambda>(k, c). if timed_out now s c then [] else send_entry now (k, c)) (clients s))))"
    by (rule distinct_concat_entries[OF d]) (auto simp: send_entry_def)
  then show ?thesis using False by (simp add: heartbeat_tick_closed[OF False d] registry_inv_def)
qed

lemma inv_cleanup:
  assumes "distinct (map fst (clients s))"
  shows "registry_inv (cleanup now s)"
  by (simp add: cleanup_closed[OF assms] registry_inv_def)

lemma inv_exec: "registry_inv s \<Longrightarrow> registry_inv (exec c s)"
proof (cases c)
  case (Pair now a)
  assume i: "registry_inv s"
  then have d: "distinct (map fst (clients s))" by (simp add: registry_inv_def)
  show ?thesis
  proof (cases a)
    case (AddClient uuid ctrl uid)
    then show ?thesis using inv_addClient[OF i] by (simp add: Pair)
  next
    case (RemoveClient k)
    then show ?thesis using inv_removeClient[OF i] by (simp add: Pair)
  next
    case (SendToClient k ev)
    then show ?thesis using inv_sendToClient[OF i] by (simp add: Pair)
  next
    case (SendToUser uid ev)
    then show ?thesis using inv_send_where[OF i]
      by (simp add: Pair sendToUser_def sendToUser_loop_send_where)
  next
    case (Broadcast ev ex)
    then show ?thesis using inv_send_where[OF i]
      by (simp add: Pair broadcast_def broadcast_loop_send_where)
  next
    case Cleanup
    then show ?thesis using inv_cleanup[OF d] by (simp add: Pair)
  next
    case HeartbeatFires
    then show ?thesis using inv_heartbeat_tick[OF i] i by (simp add: Pair)
  next
    case (WelcomeFires k)
    have "registry_inv (s\<lparr>timeouts := remove1 k (timeouts s)\<rparr>)"
      using i by (simp add: registry_inv_def)
    from inv_sendToClient[OF this] show ?thesis using i
      by (simp add: Pair WelcomeFires welcome_timeout_def)
  next
    case Signal
    have "distinct (map fst (clients (s\<lparr>isShuttingDown := True\<rparr>)))" using d by simp
    from inv_cleanup[OF this] show ?thesis by (simp add: Pair Signal shutdown_def)
  qed
qed

lemma inv_run: "registry_inv s \<Longrightarrow> registry_inv (run cs s)"
  unfolding run_def by (induction cs arbitrary: s) (simp_all add: inv_exec)

lemma reachable_inv: "registry_inv (run cs (SSEService_new cfg))"
  by (rule inv_run[OF inv_new])

lemma shut_exec:
  assumes "registry_inv s" and "isShuttingDown s"
  shows "isShuttingDown (exec c s)"
proof (cases c)
  case (Pair now a)
  from assms have d: "distinct (map fst (clients s))" and e: "clients s = []"
    by (simp_all add: registry_inv_def)
  show ?thesis
    by (cases a)
       (simp_all add: Pair assms(2) e addClient_def removeClient_def sendToClient_def sendToUser_def
          broadcast_def cleanup_def heartbeat_tick_def welcome_timeout_def shutdown_def)
qed

lemma shut_run: "registry_inv s \<Longrightarrow> isShuttingDown s \<Longrightarrow> isShuttingDown (run cs s)"
  unfolding run_def
  by (induction cs arbitrary: s) (simp_all add: inv_exec shut_exec)

lemma calls_since_append [simp]:
  "calls_since s (s\<lparr>clients := cl, stream_calls := stream_calls s @ new\<rparr>) = new"
  by (simp add: calls_since_def)

lemma mem_concat_entries:
  assumes "distinct (map fst al)" and "(k, c) \<in> set al"
    and "\<And>k' c'. fst ` set (g (k', c')) \<subseteq> {k'}"
  shows "(k, x) \<in> set (concat (map g al)) \<longleftrightarrow> (k, x) \<in> set (g (k, c))"
proof
  assume "(k, x) \<in> set (concat (map g al))"
  then obtain k' c' where in': "(k', c') \<in> set al" and x: "(k, x) \<in> set (g (k', c'))" by auto
  from x assms(3)[of k' c'] have "k' = k" by force
  with in' assms(1,2) have "c' = c" by (meson eq_key_imp_eq_value)
  with x \<open>k' = k\<close> show "(k, x) \<in> set (g (k, c))" by simp
next
  assume "(k, x) \<in> set (g (k, c))"
  with assms(2) show "(k, x) \<in> set (concat (map g al))" by auto
qed

lemma send_calls_keys: "fst ` set (send_calls k msg c) \<subseteq> {k}"
  by (auto simp: send_calls_def attempt_calls_def)

lemma send_entry_keys: "fst ` set (send_entry now (k, c)) \<subseteq> {k}"
  by (auto simp: send_entry_def)

lemma heartbeat_tick_entry:
  assumes ns: "\<not> isShuttingDown s" and d: "distinct (map fst (clients s))"
    and kc: "(k, c) \<in> set (clients s)"
  shows "stream_calls (heartbeat_tick now s) = stream_calls s @ calls_since s (heartbeat_tick now s)"
    and "(k, x) \<in> set (calls_since s (heartbeat_tick now s)) \<longleftrightarrow>
           (if timed_out now s c then x = Close
            else (k, x) \<in> set (send_calls k (formatSSEMessage (ping_event now)) c))"
    and "map_of (clients (heartbeat_tick now s)) k =
           (if timed_out now s c \<or> \<not> writable c then None else Some (c\<lparr>lastPing := getTime now\<rparr>))"
proof -
  let ?A = "\<lambda>(k, c). if timed_out now s c then []
                       else send_calls k (formatSSEMessage (ping_event now)) c"
  let ?B = "\<lambda>(k, c). if timed_out now s c then [(k, Close)] else []"
  let ?G = "\<lambda>(k, c). if timed_out now s c then [] else send_entry now (k, c)"
  have B: "map (\<lambda>(k, c). (k, Close)) (filter (\<lambda>(k, c). timed_out now s c) al) = concat (map ?B al)" for al
    by (induction al) auto
  note cf = heartbeat_tick_closed[OF ns d, of now]
  show "stream_calls (heartbeat_tick now s) = stream_calls s @ calls_since s (heartbeat_tick now s)"
    by (simp add: cf)
  have cs: "calls_since s (heartbeat_tick now s) = concat (map ?A (clients s)) @ concat (map ?B (clients s))"
    by (simp add: cf B)
  have a: "(k, x) \<in> set (concat (map ?A (clients s))) \<longleftrightarrow> (k, x) \<in> set (?A (k, c))"
    by (rule mem_concat_entries[OF d kc]) (use send_calls_keys in auto)
  have b: "(k, x) \<in> set (concat (map ?B (clients s))) \<longleftrightarrow> (k, x) \<in> set (?B (k, c))"
    by (rule mem_concat_entries[OF d kc]) auto
  show "(k, x) \<in> set (calls_since s (heartbeat_tick now s)) \<longleftrightarrow>
           (if timed_out now s c then x = Close
            else (k, x) \<in> set (send_calls k (formatSSEMessage (ping_event now)) c))"
    unfolding cs set_append Un_iff a b by simp
  have dG: "distinct (map fst (concat (map ?G (clients s))))"
    by (rule distinct_concat_entries[OF d]) (auto simp: send_entry_def)
  have g: "(k, y) \<in> set (concat (map ?G (clients s))) \<longleftrightarrow> (k, y) \<in> set (?G (k, c))" for y
    by (rule mem_concat_entries[OF d kc]) (use send_entry_keys in auto)
  show "map_of (clients (heartbeat_tick now s)) k =
           (if timed_out now s c \<or> \<not> writable c then None else Some (c\<lparr>lastPing := getTime now\<rparr>))"
  proof (cases "timed_out now s c \<or> \<not> writable c")
    case True
    then have "\<And>y. (k, y) \<notin> set (concat (map ?G (clients s)))"
      unfolding g by (auto simp: send_entry_def)
    then have "k \<notin> fst ` set (concat (map ?G (clients s)))" by force
    then show ?thesis using True by (simp add: cf map_of_eq_None_iff del: set_concat)
  next
    case False
    then have "(k, c\<lparr>lastPing := getTime now\<rparr>) \<in> set (concat (map ?G (clients s)))"
      unfolding g by (auto simp: send_entry_def)
    from map_of_is_SomeI[OF dG this] show ?thesis using False by (simp add: cf)
  qed
qed

lemma shutdown_calls:
  "send_calls k msg c @ (if writable c then [(k, Close)] else []) = attempt_calls k msg c @ [(k, Close)]"
  by (simp add: send_calls_def)

lemma shutdown_closed:
  assumes "distinct (map fst (clients s))"
  shows "shutdown now s =
     s\<lparr>isShuttingDown := True, heartbeatTimer := False, clients := [],
       stream_calls := stream_calls s @
         concat (map (\<lambda>(k, c). attempt_calls k (formatSSEMessage (shutdown_event now)) c @ [(k, Close)])
                   (clients s))\<rparr>"
proof -
  have "distinct (map fst (clients (s\<lparr>isShuttingDown := True\<rparr>)))" using assms by simp
  from cleanup_closed[OF this, of now] show ?thesis
    by (simp add: shutdown_def shutdown_calls)
qed

lemma track_invariant:
  assumes "distinct (map fst (clients s))" and "set (map fst (clients s)) = live"
  shows "case track calls (s, live) of
           (s', live') \<Rightarrow> distinct (getActiveClients s') \<and> set (getActiveClients s') = live'"
  using assms
proof (induction calls arbitrary: s live)
  case Nil
  then show ?case by (simp add: getActiveClients_def)
next
  case (Cons a calls)
  show ?case
  proof (cases a)
    case (Register now uuid ctrl uid)
    show ?thesis
    proof (cases "isShuttingDown s \<or> maxClients (config s) \<le> int (length (clients s))")
      case True
      then have "addClient now uuid ctrl uid s =
          (Inl (if isShuttingDown s then Unavailable else CapacityExceeded), s)"
        by (auto simp: addClient_def)
      then obtain e where ae: "addClient now uuid ctrl uid s = (Inl e, s)" ..
      show ?thesis using Cons.IH[OF Cons.prems] by (simp add: Register ae)
    next
      case False
      let ?client = "\<lparr>client_id = uuid, userId = uid, response = ctrl,
                       lastPing = getTime now, connectedAt = getTime now\<rparr>"
      let ?s' = "s\<lparr>clients := AList.update uuid ?client (clients s),
                   timeouts := timeouts s @ [uuid]\<rparr>"
      have a: "addClient now uuid ctrl uid s = (Inr uuid, ?s')"
        using False by (simp add: addClient_def Let_def)
      have d: "distinct (map fst (clients ?s'))"
        using Cons.prems(1) by (simp add: AList.distinct_update)
      have k: "set (map fst (clients ?s')) = insert uuid live"
        using Cons.prems(2) by (auto simp: AList.update_keys)
      show ?thesis using Cons.IH[OF d k] by (simp add: Register a)
    qed
  next
    case (Remove k)
    let ?s' = "snd (removeClient k s)"
    have d: "distinct (map fst (clients ?s'))"
      using Cons.prems(1)
      by (auto simp: removeClient_def call_stream_def Let_def AList.distinct_delete split: option.splits)
    have ks: "set (map fst (clients ?s')) = live - {k}"
    proof (cases "map_of (clients s) k")
      case None
      then have "k \<notin> live" using Cons.prems(2) by (auto simp: map_of_eq_None_iff)
      then show ?thesis using None Cons.prems(2) by (simp add: removeClient_def)
    next
      case (Some c)
      then show ?thesis using Cons.prems(2)
        by (auto simp: removeClient_def call_stream_def Let_def AList.delete_keys)
    qed
    show ?thesis using Cons.IH[OF d ks] by (simp add: Remove)
  qed
qed

lemma track_run: "fst (track calls (s, live)) = run (map call_of calls) s"
proof (induction calls arbitrary: s live)
  case Nil
  show ?case by (simp add: run_def)
next
  case (Cons a calls)
  show ?case
  proof (cases a)
    case (Register now uuid ctrl uid)
    then show ?thesis using Cons.IH
      by (cases "addClient now uuid ctrl uid s") (auto simp: run_def split: sum.splits)
  next
    case (Remove k)
    then show ?thesis using Cons.IH by (simp add: run_def)
  qed
qed

lemma send_each_closed:
  assumes "clients s = pre @ todo" and "distinct (map fst (clients s))"
  shows "send_each now ev (map fst (filter (\<lambda>(k, c). P k c) todo)) (n, s) =
     (n + length (filter (\<lambda>(k, c). P k c \<and> writable c) todo),
      s\<lparr>clients := pre @ concat (map (\<lambda>(k, c). if P k c then send_entry now (k, c) else [(k, c)]) todo),
        stream_calls := stream_calls s @
          concat (map (\<lambda>(k, c). if P k c then send_calls k (formatSSEMessage ev) c else []) todo)\<rparr>)"
  using assms
proof (induction todo arbitrary: pre n s)
  case Nil
  then have "s\<lparr>clients := pre\<rparr> = s" by (cases s) simp
  then show ?case by simp
next
  case (Cons e todo)
  obtain k c where e: "e = (k, c)" by (cases e)
  from Cons.prems have cl: "clients s = pre @ (k, c) # todo"
    and d: "distinct (map fst (pre @ (k, c) # todo))" by (simp_all add: e)
  show ?case
  proof (cases "P k c")
    case True
    let ?s1 = "s\<lparr>clients := pre @ send_entry now (k, c) @ todo,
                  stream_calls := stream_calls s @ send_calls k (formatSSEMessage ev) c\<rparr>"
    have snd1: "sendToClient now k ev s = (writable c, ?s1)"
      using sendToClient_mid[OF cl Cons.prems(2)] .
    have c1: "clients ?s1 = (pre @ send_entry now (k, c)) @ todo" by simp
    have d1: "distinct (map fst (clients ?s1))" using distinct_send_entry[OF d] by simp
    show ?thesis
      using Cons.IH[OF c1 d1, of "if writable c then n + 1 else n"] True
      by (simp add: e snd1)
  next
    case False
    have c1: "clients s = (pre @ [(k, c)]) @ todo" using cl by simp
    show ?thesis
      using Cons.IH[OF c1 Cons.prems(2), of n] False
      by (simp add: e)
  qed
qed

lemma sendToUser_closed:
  assumes "distinct (map fst (clients s))"
  shows "sendToUser now uid ev s =
     (length (filter (\<lambda>(k, c). userId c = Some uid \<and> writable c) (clients s)),
      s\<lparr>clients := concat (map (\<lambda>(k, c). if userId c = Some uid then send_entry now (k, c) else [(k, c)]) (clients s)),
        stream_calls := stream_calls s @
          concat (map (\<lambda>(k, c). if userId c = Some uid then send_calls k (formatSSEMessage ev) c else []) (clients s))\<rparr>)"
  unfolding sendToUser_def sendToUser_loop_send_where
  by (rule send_where_all[OF assms])

lemma sendToUser_entry:
  assumes d: "distinct (map fst (clients s))" and kc: "(k, c) \<in> set (clients s)"
  shows "(k, x) \<in> set (calls_since s (snd (sendToUser now uid ev s))) \<longleftrightarrow>
           userId c = Some uid \<and> (k, x) \<in> set (send_calls k (formatSSEMessage ev) c)"
    and "map_of (clients (snd (sendToUser now uid ev s))) k =
           (if userId c = Some uid
            then (if writable c then Some (c\<lparr>lastPing := getTime now\<rparr>) else None)
            else Some c)"
proof -
  let ?A = "\<lambda>(k, c). if userId c = Some uid then send_calls k (formatSSEMessage ev) c else []"
  let ?G = "\<lambda>(k, c). if userId c = Some uid then send_entry now (k, c) else [(k, c)]"
  note cf = sendToUser_closed[OF d, of now uid ev]
  have a: "(k, x) \<in> set (concat (map ?A (clients s))) \<longleftrightarrow> (k, x) \<in> set (?A (k, c))"
    by (rule mem_concat_entries[OF d kc]) (auto simp: send_calls_def attempt_calls_def)
  show "(k, x) \<in> set (calls_since s (snd (sendToUser now uid ev s))) \<longleftrightarrow>
           userId c = Some uid \<and> (k, x) \<in> set (send_calls k (formatSSEMessage ev) c)"
    unfolding cf snd_conv calls_since_append a by simp
  have dG: "distinct (map fst (concat (map ?G (clients s))))"
    by (rule distinct_concat_entries[OF d]) (auto simp: send_entry_def)
  have g: "(k, y) \<in> set (concat (map ?G (clients s))) \<longleftrightarrow> (k, y) \<in> set (?G (k, c))" for y
    by (rule mem_concat_entries[OF d kc]) (use send_entry_keys in auto)
  show "map_of (clients (snd (sendToUser now uid ev s))) k =
           (if userId c = Some uid
            then (if writable c then Some (c\<lparr>lastPing := getTime now\<rparr>) else None)
            else Some c)"
  proof (cases "userId c = Some uid \<and> \<not> writable c")
    case True
    then have "\<And>y. (k, y) \<notin> set (concat (map ?G (clients s)))"
      unfolding g by (auto simp: send_entry_def)
    then have "k \<notin> fst ` set (concat (map ?G (clients s)))" by force
    then show ?thesis using True by (simp add: cf map_of_eq_None_iff del: set_concat)
  next
    case False
    let ?c' = "if userId c = Some uid then c\<lparr>lastPing := getTime now\<rparr> else c"
    from False have "(k, ?c') \<in> set (concat (map ?G (clients s)))"
      unfolding g by (auto simp: send_entry_def)
    from map_of_is_SomeI[OF dG this] show ?thesis using False by (simp add: cf)
  qed
qed

lemma getClientsByUser_set:
  assumes "distinct (map fst (clients s))"
  shows "set (getClientsByUser uid s) = {k. \<exists>c. map_of (clients s) k = Some c \<and> userId c = Some uid}"
  using assms by (auto simp: getClientsByUser_def image_iff dest: map_of_SomeD)

lemma getStats_never_NaN:
  "averageConnectionTime (getStats now s) \<noteq> None \<and> oldestConnection (getStats now s) \<noteq> None"
  by (cases "clients s") (auto simp: getStats_def js_divide_def)

lemma demo_service_run: "run demo_calls (SSEService_new None) = demo_service"
  by (simp add: run_def demo_calls_def demo_date_def SSEService_new_def addClient_def nullish_def Let_def
        demo_service_def demo_c1_def demo_c2_def demo_c3_def)

lemma getStats_counts:
  "anonymousClients (getStats now s) = length (filter (\<lambda>(k, c). \<not> truthy_string (userId c)) (clients s))"
  "authenticatedClients (getStats now s) = length (filter (\<lambda>(k, c). truthy_string (userId c)) (clients s))"
  by (simp_all add: getStats_def Let_def filter_map comp_def split_def)

lemmas demo_simps = demo_service_def demo_c1_def demo_c2_def demo_c3_def demo_date_def
  open_stream_def closed_stream_def

section \<open>The claims\<close>

subsection \<open>C1: the encoder\<close>

text \<open>
  C1, as the specification states it, makes the encoder equal to the wire grammar on
  every event. It is not: an event whose retry hint is present and zero gets no
  \<^verbatim>\<open>retry\<close> line, because the encoder tests the field for truthiness.
\<close>

theorem formatSSEMessage_retry_zero_omitted:
  "formatSSEMessage \<lparr>event_id = None, event = ''update'', data = JObj [(''a'', JNum 1)], retry = Some 0\<rparr>
     \<noteq> wire_grammar \<lparr>event_id = None, event = ''update'', data = JObj [(''a'', JNum 1)], retry = Some 0\<rparr>"
  by (simp add: formatSSEMessage_def wire_grammar_def Number_toString_def digits.simps)

text \<open>
  C1, amended: the encoder emits the \<^verbatim>\<open>id\<close> line exactly when the id is present
  and not empty, then the \<^verbatim>\<open>event\<close> line, then the \<^verbatim>\<open>data\<close> line with the JSON
  text of the payload, then the \<^verbatim>\<open>retry\<close> line exactly when the retry hint is present
  and not zero, then one blank line. On every event whose id is absent or non-empty and
  whose retry hint is absent or non-zero this is the wire grammar. The event with id
  42, name update, payload \<^verbatim>\<open>{"a":1}\<close> and retry 3000 is encoded as the specification
  says, and an event with neither id nor retry hint has neither line.
\<close>

theorem formatSSEMessage_wire_format:
  "formatSSEMessage ev =
     (if truthy_string (event_id ev) then ''id: '' @ the (event_id ev) @ [nl] else []) @
     ''event: '' @ event ev @ [nl] @
     ''data: '' @ JSON_stringify (data ev) @ [nl] @
     (if truthy_number (retry ev) then ''retry: '' @ Number_toString (the (retry ev)) @ [nl] else []) @
     [nl]
   \<and> (event_id ev \<noteq> Some [] \<and> retry ev \<noteq> Some 0 \<longrightarrow> formatSSEMessage ev = wire_grammar ev)
   \<and> formatSSEMessage
        \<lparr>event_id = Some ''42'', event = ''update'', data = JObj [(''a'', JNum 1)], retry = Some 3000\<rparr> =
       ''id: 42'' @ [nl] @ ''event: update'' @ [nl] @
       ''data: {'' @ [dq] @ ''a'' @ [dq] @ '':1}'' @ [nl] @ ''retry: 3000'' @ [nl] @ [nl]
   \<and> formatSSEMessage \<lparr>event_id = None, event = name, data = payload, retry = None\<rparr> =
       ''event: '' @ name @ [nl] @ ''data: '' @ JSON_stringify payload @ [nl] @ [nl]"
proof (intro conjI)
  show "formatSSEMessage ev =
     (if truthy_string (event_id ev) then ''id: '' @ the (event_id ev) @ [nl] else []) @
     ''event: '' @ event ev @ [nl] @
     ''data: '' @ JSON_stringify (data ev) @ [nl] @
     (if truthy_number (retry ev) then ''retry: '' @ Number_toString (the (retry ev)) @ [nl] else []) @
     [nl]"
    by (rule formatSSEMessage_lines)
  show "event_id ev \<noteq> Some [] \<and> retry ev \<noteq> Some 0 \<longrightarrow> formatSSEMessage ev = wire_grammar ev"
    using wire_grammar_truthy by blast
  show "formatSSEMessage
        \<lparr>event_id = Some ''42'', event = ''update'', data = JObj [(''a'', JNum 1)], retry = Some 3000\<rparr> =
       ''id: 42'' @ [nl] @ ''event: update'' @ [nl] @
       ''data: {'' @ [dq] @ ''a'' @ [dq] @ '':1}'' @ [nl] @ ''retry: 3000'' @ [nl] @ [nl]"
    by (simp add: formatSSEMessage_def Number_toString_def digits.simps QuoteJSONString_def quote_char_def)
  show "formatSSEMessage \<lparr>event_id = None, event = name, data = payload, retry = None\<rparr> =
       ''event: '' @ name @ [nl] @ ''data: '' @ JSON_stringify payload @ [nl] @ [nl]"
    by (simp add: formatSSEMessage_def)
qed

theorem formatSSEMessage_wire_format_witness:
  "formatSSEMessage \<lparr>event_id = Some ''7'', event = ''tick'', data = JNull, retry = None\<rparr> =
     wire_grammar \<lparr>event_id = Some ''7'', event = ''tick'', data = JNull, retry = None\<rparr>
   \<and> wire_grammar \<lparr>event_id = Some ''7'', event = ''tick'', data = JNull, retry = None\<rparr> =
     ''id: 7'' @ [nl] @ ''event: tick'' @ [nl] @ ''data: null'' @ [nl] @ [nl]"
  using formatSSEMessage_wire_format
          [of "\<lparr>event_id = Some ''7'', event = ''tick'', data = JNull, retry = None\<rparr>"]
  by (simp add: wire_grammar_def)

subsection \<open>C2: registration at capacity\<close>

text \<open>
  C2, as the specification states it, promises the capacity error in every state that
  holds \<^verbatim>\<open>maxClients\<close> connections or more. A service configured with
  \<^verbatim>\<open>maxClients: 0\<close> that has received a termination signal is such a state, and
  there \<^verbatim>\<open>addClient\<close> fails with the shutting-down error: that test comes first.
\<close>

theorem addClient_shutting_down_at_capacity:
  "maxClients (config (shutdown (demo_date 1000) (SSEService_new (Some (demo_config 0)))))
     \<le> int (length (clients (shutdown (demo_date 1000) (SSEService_new (Some (demo_config 0))))))
   \<and> fst (addClient (demo_date 2000) ''c1'' open_stream None
            (shutdown (demo_date 1000) (SSEService_new (Some (demo_config 0)))))
     \<noteq> Inl CapacityExceeded"
  by (simp add: shutdown_def cleanup_def demo_date_def demo_config_def SSEService_new_def addClient_def
        nullish_def)

text \<open>
  C2, amended: in every state that holds \<^verbatim>\<open>maxClients\<close> connections or more,
  \<^verbatim>\<open>addClient\<close> fails and leaves the whole state as it was, so no connection is
  created and the count is the same; the error is the capacity error when the service
  is not shutting down, and the shutting-down error when it is.
\<close>

theorem addClient_at_capacity:
  assumes "maxClients (config s) \<le> int (length (clients s))"
  shows "addClient now uuid ctrl uid s =
           (Inl (if isShuttingDown s then Unavailable else CapacityExceeded), s)"
  using assms by (simp add: addClient_def)

theorem addClient_at_capacity_witness:
  "maxClients (config (run demo_calls (SSEService_new (Some (demo_config 3)))))
     \<le> int (length (clients (run demo_calls (SSEService_new (Some (demo_config 3))))))
   \<and> addClient (demo_date 5000) ''c9'' open_stream None
         (run demo_calls (SSEService_new (Some (demo_config 3)))) =
       (Inl CapacityExceeded, run demo_calls (SSEService_new (Some (demo_config 3))))"
proof -
  let ?s = "run demo_calls (SSEService_new (Some (demo_config 3)))"
  have h: "maxClients (config ?s) \<le> int (length (clients ?s))"
    and n: "\<not> isShuttingDown ?s"
    by (simp_all add: run_def demo_calls_def demo_date_def demo_config_def SSEService_new_def
          addClient_def nullish_def Let_def)
  from addClient_at_capacity[OF h, of "demo_date 5000" "''c9''" open_stream None] n
  have "addClient (demo_date 5000) ''c9'' open_stream None ?s = (Inl CapacityExceeded, ?s)"
    by simp
  with h show ?thesis by blast
qed

subsection \<open>C3: removal\<close>

text \<open>
  C3: \<^verbatim>\<open>removeClient\<close> on an id that is not registered returns false and leaves
  the state as it was. On a registered id it calls \<^verbatim>\<open>close\<close> on the stream handle,
  deletes the entry and returns true, whether or not \<^verbatim>\<open>close\<close> throws; the other
  ids stay, in their order. After any call the id is not registered, and a second call
  with the same id returns false and changes nothing.
\<close>

theorem removeClient_contract:
  "(k \<notin> set (getActiveClients s) \<longrightarrow> removeClient k s = (False, s))
   \<and> (k \<in> set (getActiveClients s) \<longrightarrow>
        removeClient k s =
          (True, s\<lparr>clients := AList.delete k (clients s),
                   stream_calls := stream_calls s @ [(k, Close)]\<rparr>)
        \<and> getActiveClients (snd (removeClient k s)) = removeAll k (getActiveClients s))
   \<and> k \<notin> set (getActiveClients (snd (removeClient k s)))
   \<and> removeClient k (snd (removeClient k s)) = (False, snd (removeClient k s))"
proof -
  have absent: "removeClient k t = (False, t)" if "k \<notin> set (getActiveClients t)" for t
    using that by (simp add: removeClient_absent map_of_eq_None_iff getActiveClients_def)
  have present: "removeClient k s =
          (True, s\<lparr>clients := AList.delete k (clients s),
                   stream_calls := stream_calls s @ [(k, Close)]\<rparr>)"
    if "k \<in> set (getActiveClients s)"
  proof -
    from that have "map_of (clients s) k \<noteq> None"
      by (simp add: map_of_eq_None_iff getActiveClients_def)
    then obtain c where "map_of (clients s) k = Some c" by blast
    then show ?thesis by (rule removeClient_present)
  qed
  have gone: "k \<notin> set (getActiveClients (snd (removeClient k s)))"
  proof (cases "k \<in> set (getActiveClients s)")
    case True
    then show ?thesis by (simp add: present getActiveClients_def AList.delete_keys)
  next
    case False
    then show ?thesis by (simp add: absent)
  qed
  have keys: "getActiveClients (snd (removeClient k s)) = removeAll k (getActiveClients s)"
    if "k \<in> set (getActiveClients s)"
    by (simp add: present[OF that] getActiveClients_def AList.delete_keys)
  show ?thesis
    using absent[of s] present keys gone absent[OF gone] by blast
qed

theorem removeClient_contract_witness:
  "''c2'' \<in> set (getActiveClients demo_service)
   \<and> fst (removeClient ''c2'' demo_service) = True
   \<and> getActiveClients (snd (removeClient ''c2'' demo_service)) = [''c1'', ''c3'']
   \<and> removeClient ''c2'' (snd (removeClient ''c2'' demo_service)) =
       (False, snd (removeClient ''c2'' demo_service))
   \<and> ''zz'' \<notin> set (getActiveClients demo_service)
   \<and> removeClient ''zz'' demo_service = (False, demo_service)"
proof -
  have keys: "getActiveClients demo_service = [''c1'', ''c2'', ''c3'']"
    by (simp add: getActiveClients_def demo_service_def)
  have p: "''c2'' \<in> set (getActiveClients demo_service)"
    and a: "''zz'' \<notin> set (getActiveClients demo_service)"
    by (simp_all add: keys)
  note t = removeClient_contract[of "''c2''" demo_service]
  note u = removeClient_contract[of "''zz''" demo_service]
  from t p have 1: "removeClient ''c2'' demo_service =
          (True, demo_service\<lparr>clients := AList.delete ''c2'' (clients demo_service),
                   stream_calls := stream_calls demo_service @ [(''c2'', Close)]\<rparr>)"
    and 2: "getActiveClients (snd (removeClient ''c2'' demo_service)) =
             removeAll ''c2'' (getActiveClients demo_service)"
    and 3: "removeClient ''c2'' (snd (removeClient ''c2'' demo_service)) =
       (False, snd (removeClient ''c2'' demo_service))"
    by blast+
  from u a have 4: "removeClient ''zz'' demo_service = (False, demo_service)" by blast
  from 1 have 5: "fst (removeClient ''c2'' demo_service) = True" by simp
  from 2 have 6: "getActiveClients (snd (removeClient ''c2'' demo_service)) = [''c1'', ''c3'']"
    by (simp add: keys)
  from p 5 6 3 a 4 show ?thesis by blast
qed

subsection \<open>C4: a send to one connection\<close>

text \<open>
  C4: for a registered id, when the write fails (the handle reports a \<^verbatim>\<open>null\<close>
  \<^verbatim>\<open>desiredSize\<close>, or \<^verbatim>\<open>enqueue\<close> throws), \<^verbatim>\<open>sendToClient\<close> returns false
  and its state is the one \<^verbatim>\<open>removeClient\<close> leaves, so the id is no longer among the
  active clients; the handle has seen at most one \<^verbatim>\<open>enqueue\<close>, then \<^verbatim>\<open>close\<close>.
  When the write succeeds it returns true and the stored client has \<^verbatim>\<open>lastPing\<close>
  set to the clock. The result is a boolean in every case: nothing is thrown.
\<close>

theorem sendToClient_contract:
  assumes "map_of (clients s) k = Some c"
  shows "(desiredSize (response c) = None \<or> enqueue_throws (response c) \<longrightarrow>
            sendToClient now k ev s =
              (False, s\<lparr>clients := AList.delete k (clients s),
                        stream_calls := stream_calls s @ attempt_calls k (formatSSEMessage ev) c @ [(k, Close)]\<rparr>)
            \<and> snd (sendToClient now k ev s) =
                snd (removeClient k
                  (s\<lparr>stream_calls := stream_calls s @ attempt_calls k (formatSSEMessage ev) c\<rparr>))
            \<and> k \<notin> set (getActiveClients (snd (sendToClient now k ev s))))
       \<and> (desiredSize (response c) \<noteq> None \<and> \<not> enqueue_throws (response c) \<longrightarrow>
            sendToClient now k ev s =
              (True, s\<lparr>clients := AList.update k (c\<lparr>lastPing := getTime now\<rparr>) (clients s),
                       stream_calls := stream_calls s @
                         [(k, GetDesiredSize), (k, Enqueue (formatSSEMessage ev))]\<rparr>)
            \<and> map_of (clients (snd (sendToClient now k ev s))) k = Some (c\<lparr>lastPing := getTime now\<rparr>))"
proof (cases "writable c")
  case True
  then show ?thesis
    using sendToClient_present[OF assms, of now ev]
    by (simp add: writable_def send_calls_def attempt_calls_def AList.update_conv')
next
  case False
  let ?mid = "s\<lparr>stream_calls := stream_calls s @ attempt_calls k (formatSSEMessage ev) c\<rparr>"
  have m: "map_of (clients ?mid) k = Some c" using assms by simp
  have "k \<notin> fst ` set (AList.delete k (clients s))" by (rule AList.delete_notin_dom)
  then show ?thesis
    using False sendToClient_present[OF assms, of now ev] removeClient_present[OF m]
    by (auto simp: writable_def send_calls_def getActiveClients_def)
qed

theorem sendToClient_contract_witness:
  "map_of (clients demo_service) ''c2'' = Some demo_c2
   \<and> enqueue_throws (response demo_c2)
   \<and> fst (sendToClient (demo_date 5000) ''c2'' (ping_event (demo_date 5000)) demo_service) = False
   \<and> ''c2'' \<notin> set (getActiveClients
          (snd (sendToClient (demo_date 5000) ''c2'' (ping_event (demo_date 5000)) demo_service)))
   \<and> map_of (clients demo_service) ''c1'' = Some demo_c1
   \<and> fst (sendToClient (demo_date 5000) ''c1'' (ping_event (demo_date 5000)) demo_service) = True
   \<and> map_of (clients (snd (sendToClient (demo_date 5000) ''c1'' (ping_event (demo_date 5000)) demo_service))) ''c1''
       = Some (demo_c1\<lparr>lastPing := getTime (demo_date 5000)\<rparr>)"
proof -
  have m2: "map_of (clients demo_service) ''c2'' = Some demo_c2"
    and m1: "map_of (clients demo_service) ''c1'' = Some demo_c1"
    by (simp_all add: demo_service_def)
  have f2: "enqueue_throws (response demo_c2)" by (simp add: demo_c2_def closed_stream_def)
  have f1: "desiredSize (response demo_c1) \<noteq> None \<and> \<not> enqueue_throws (response demo_c1)"
    by (simp add: demo_c1_def open_stream_def)
  note t = sendToClient_contract[OF m2, of "demo_date 5000" "ping_event (demo_date 5000)"]
  note u = sendToClient_contract[OF m1, of "demo_date 5000" "ping_event (demo_date 5000)"]
  from t f2 have 1: "sendToClient (demo_date 5000) ''c2'' (ping_event (demo_date 5000)) demo_service =
              (False, demo_service\<lparr>clients := AList.delete ''c2'' (clients demo_service),
                        stream_calls := stream_calls demo_service @
                          attempt_calls ''c2'' (formatSSEMessage (ping_event (demo_date 5000))) demo_c2 @
                          [(''c2'', Close)]\<rparr>)"
    and 2: "''c2'' \<notin> set (getActiveClients
          (snd (sendToClient (demo_date 5000) ''c2'' (ping_event (demo_date 5000)) demo_service)))"
    by blast+
  from u f1 have 3: "sendToClient (demo_date 5000) ''c1'' (ping_event (demo_date 5000)) demo_service =
              (True, demo_service\<lparr>clients := AList.update ''c1'' (demo_c1\<lparr>lastPing := getTime (demo_date 5000)\<rparr>)
                                              (clients demo_service),
                       stream_calls := stream_calls demo_service @
                         [(''c1'', GetDesiredSize),
                          (''c1'', Enqueue (formatSSEMessage (ping_event (demo_date 5000))))]\<rparr>)"
    and 4: "map_of (clients (snd (sendToClient (demo_date 5000) ''c1'' (ping_event (demo_date 5000)) demo_service))) ''c1''
       = Some (demo_c1\<lparr>lastPing := getTime (demo_date 5000)\<rparr>)"
    by blast+
  from 1 have 5: "fst (sendToClient (demo_date 5000) ''c2'' (ping_event (demo_date 5000)) demo_service) = False"
    by simp
  from 3 have 6: "fst (sendToClient (demo_date 5000) ''c1'' (ping_event (demo_date 5000)) demo_service) = True"
    by simp
  from m2 f2 5 2 m1 6 4 show ?thesis by blast
qed

subsection \<open>C5: the heartbeat tick\<close>

text \<open>
  C5: in every state a run of the service can reach, for every connection registered
  when the heartbeat fires: if the clock is more than \<^verbatim>\<open>clientTimeout\<close> past its
  \<^verbatim>\<open>lastPing\<close>, the tick removes it and makes no call on its handle but
  \<^verbatim>\<open>close\<close>; otherwise the tick tries to send it the ping event, which carries the
  clock, and the connection stays with \<^verbatim>\<open>lastPing\<close> set to the clock when the write
  succeeds, and is removed by the same tick when it fails.
\<close>

theorem heartbeat_tick_contract:
  assumes "s = run cs (SSEService_new cfg)" and "(k, c) \<in> set (clients s)"
  shows "stream_calls (heartbeat_tick now s) = stream_calls s @ calls_since s (heartbeat_tick now s)
     \<and> event (ping_event now) = ''ping''
     \<and> data (ping_event now) =
          JObj [(''timestamp'', JNum (getTime now)), (''serverTime'', JStr (toISOString now))]
     \<and> (getTime now - lastPing c > clientTimeout (config s) \<longrightarrow>
            k \<notin> set (getActiveClients (heartbeat_tick now s))
          \<and> (k, GetDesiredSize) \<notin> set (calls_since s (heartbeat_tick now s))
          \<and> (\<forall>msg. (k, Enqueue msg) \<notin> set (calls_since s (heartbeat_tick now s)))
          \<and> (k, Close) \<in> set (calls_since s (heartbeat_tick now s)))
     \<and> (\<not> getTime now - lastPing c > clientTimeout (config s) \<longrightarrow>
            (k, GetDesiredSize) \<in> set (calls_since s (heartbeat_tick now s))
          \<and> (desiredSize (response c) \<noteq> None \<longrightarrow>
                (k, Enqueue (formatSSEMessage (ping_event now))) \<in> set (calls_since s (heartbeat_tick now s)))
          \<and> (writable c \<longrightarrow>
                map_of (clients (heartbeat_tick now s)) k = Some (c\<lparr>lastPing := getTime now\<rparr>))
          \<and> (\<not> writable c \<longrightarrow>
                k \<notin> set (getActiveClients (heartbeat_tick now s))
              \<and> (k, Close) \<in> set (calls_since s (heartbeat_tick now s))))"
proof -
  have inv: "registry_inv s" unfolding assms(1) by (rule reachable_inv)
  then have d: "distinct (map fst (clients s))" by (simp add: registry_inv_def)
  from inv assms(2) have ns: "\<not> isShuttingDown s" by (auto simp: registry_inv_def)
  note e = heartbeat_tick_entry[OF ns d assms(2), where now = now]
  have keys: "k \<notin> set (getActiveClients (heartbeat_tick now s))"
    if "timed_out now s c \<or> \<not> writable c"
    using e(3) that by (simp add: getActiveClients_def map_of_eq_None_iff)
  have ping: "event (ping_event now) = ''ping''"
    "data (ping_event now) =
       JObj [(''timestamp'', JNum (getTime now)), (''serverTime'', JStr (toISOString now))]"
    by (simp_all add: ping_event_def)
  show ?thesis
    using e(1) e(2) e(3) keys ping
    by (auto simp: timed_out_def send_calls_def attempt_calls_def)
qed

theorem heartbeat_tick_contract_witness:
  "(''c1'', demo_c1) \<in> set (clients (run demo_calls (SSEService_new None)))
   \<and> getTime (demo_date 91500) - lastPing demo_c1 > clientTimeout (config (run demo_calls (SSEService_new None)))
   \<and> ''c1'' \<notin> set (getActiveClients (heartbeat_tick (demo_date 91500) (run demo_calls (SSEService_new None))))
   \<and> (''c1'', GetDesiredSize) \<notin> set (calls_since (run demo_calls (SSEService_new None))
          (heartbeat_tick (demo_date 91500) (run demo_calls (SSEService_new None))))
   \<and> (''c2'', demo_c2) \<in> set (clients (run demo_calls (SSEService_new None)))
   \<and> ''c2'' \<notin> set (getActiveClients (heartbeat_tick (demo_date 91500) (run demo_calls (SSEService_new None))))
   \<and> (''c3'', demo_c3) \<in> set (clients (run demo_calls (SSEService_new None)))
   \<and> map_of (clients (heartbeat_tick (demo_date 91500) (run demo_calls (SSEService_new None)))) ''c3''
       = Some (demo_c3\<lparr>lastPing := getTime (demo_date 91500)\<rparr>)"
proof -
  let ?s = "run demo_calls (SSEService_new None)"
  have i1: "(''c1'', demo_c1) \<in> set (clients ?s)"
    and i2: "(''c2'', demo_c2) \<in> set (clients ?s)"
    and i3: "(''c3'', demo_c3) \<in> set (clients ?s)"
    by (simp_all add: demo_service_run demo_service_def)
  have t1: "getTime (demo_date 91500) - lastPing demo_c1 > clientTimeout (config ?s)"
    and t2: "\<not> getTime (demo_date 91500) - lastPing demo_c2 > clientTimeout (config ?s)"
    and t3: "\<not> getTime (demo_date 91500) - lastPing demo_c3 > clientTimeout (config ?s)"
    by (simp_all add: demo_service_run demo_simps)
  have w2: "\<not> writable demo_c2" and w3: "writable demo_c3"
    by (simp_all add: writable_def demo_simps)
  note a = heartbeat_tick_contract[OF refl i1, of "demo_date 91500"]
  note b = heartbeat_tick_contract[OF refl i2, of "demo_date 91500"]
  note c = heartbeat_tick_contract[OF refl i3, of "demo_date 91500"]
  from a t1 have 1: "''c1'' \<notin> set (getActiveClients (heartbeat_tick (demo_date 91500) ?s))"
    and 2: "(''c1'', GetDesiredSize) \<notin> set (calls_since ?s (heartbeat_tick (demo_date 91500) ?s))"
    by blast+
  from b t2 w2 have 3: "''c2'' \<notin> set (getActiveClients (heartbeat_tick (demo_date 91500) ?s))"
    by blast
  from c t3 w3 have 4: "map_of (clients (heartbeat_tick (demo_date 91500) ?s)) ''c3''
       = Some (demo_c3\<lparr>lastPing := getTime (demo_date 91500)\<rparr>)"
    by blast
  from i1 t1 1 2 i2 3 i3 4 show ?thesis by blast
qed

subsection \<open>C6: after shutdown\<close>

text \<open>
  C6, as the specification states it, makes every registration after \<^verbatim>\<open>cleanup\<close>
  fail. \<^verbatim>\<open>cleanup\<close> does not set the shutting-down flag: on a fresh service, a
  registration after \<^verbatim>\<open>cleanup\<close> succeeds.
\<close>

theorem cleanup_alone_accepts_registration:
  "fst (addClient (demo_date 2000) ''c1'' open_stream None
          (cleanup (demo_date 1000) (SSEService_new None))) = Inr ''c1''"
  by (simp add: cleanup_def SSEService_new_def addClient_def nullish_def Let_def)

text \<open>
  C6, amended: \<^verbatim>\<open>cleanup\<close> tries to send the shutdown event to every registered
  connection, closes and removes all of them and cancels the heartbeat timer, and
  changes nothing else. The handler of the termination signals sets the shutting-down
  flag and then runs \<^verbatim>\<open>cleanup\<close>; after it, whatever happens to the service, every
  \<^verbatim>\<open>addClient\<close> fails with the shutting-down error and leaves the state as it was.
\<close>

theorem shutdown_blocks_registration:
  assumes "s = run cs0 (SSEService_new cfg)"
  shows "cleanup now s =
           s\<lparr>heartbeatTimer := False, clients := [],
             stream_calls := stream_calls s @
               concat (map (\<lambda>(k, c). attempt_calls k (formatSSEMessage (shutdown_event now)) c @ [(k, Close)])
                         (clients s))\<rparr>
       \<and> shutdown now s = (cleanup now s)\<lparr>isShuttingDown := True\<rparr>
       \<and> addClient now' uuid ctrl uid (run cs (shutdown now s)) =
           (Inl Unavailable, run cs (shutdown now s))"
proof -
  have inv: "registry_inv s" unfolding assms by (rule reachable_inv)
  then have d: "distinct (map fst (clients s))" by (simp add: registry_inv_def)
  have c: "cleanup now s =
           s\<lparr>heartbeatTimer := False, clients := [],
             stream_calls := stream_calls s @
               concat (map (\<lambda>(k, c). attempt_calls k (formatSSEMessage (shutdown_event now)) c @ [(k, Close)])
                         (clients s))\<rparr>"
    by (simp add: cleanup_closed[OF d] shutdown_calls)
  have sh: "shutdown now s = (cleanup now s)\<lparr>isShuttingDown := True\<rparr>"
    by (simp add: shutdown_closed[OF d] c)
  have i1: "registry_inv (shutdown now s)" and f1: "isShuttingDown (shutdown now s)"
    by (simp_all add: shutdown_closed[OF d] registry_inv_def)
  have "isShuttingDown (run cs (shutdown now s))" by (rule shut_run[OF i1 f1])
  then have "addClient now' uuid ctrl uid (run cs (shutdown now s)) =
           (Inl Unavailable, run cs (shutdown now s))"
    by (simp add: addClient_def)
  with c sh show ?thesis by blast
qed

theorem shutdown_blocks_registration_witness:
  "cleanup (demo_date 6000) (run demo_calls (SSEService_new None)) =
     (run demo_calls (SSEService_new None))
       \<lparr>heartbeatTimer := False, clients := [],
        stream_calls := stream_calls (run demo_calls (SSEService_new None)) @
          concat (map (\<lambda>(k, c). attempt_calls k (formatSSEMessage (shutdown_event (demo_date 6000))) c @ [(k, Close)])
                    (clients (run demo_calls (SSEService_new None))))\<rparr>
   \<and> addClient (demo_date 7000) ''c9'' open_stream None
            (run [(demo_date 6500, Cleanup)] (shutdown (demo_date 6000) (run demo_calls (SSEService_new None))))
       = (Inl Unavailable,
          run [(demo_date 6500, Cleanup)] (shutdown (demo_date 6000) (run demo_calls (SSEService_new None))))"
proof -
  note t = shutdown_blocks_registration[OF refl, of "demo_date 6000" demo_calls None
          "demo_date 7000" "''c9''" open_stream None "[(demo_date 6500, Cleanup)]"]
  from t show ?thesis by blast
qed

subsection \<open>C7: the active ids\<close>

text \<open>
  C7: after every finite sequence of register and remove calls on a new service, the
  list \<^verbatim>\<open>getActiveClients\<close> returns has no duplicates, and its set is the set of
  ids that successful registrations returned and no later remove call named.
\<close>

theorem getActiveClients_exact:
  "case track calls (SSEService_new cfg, {}) of
     (s, live) \<Rightarrow> distinct (getActiveClients s) \<and> set (getActiveClients s) = live"
  by (rule track_invariant) (simp_all add: SSEService_new_def)

subsection \<open>C8: sending to a user\<close>

text \<open>
  C8: with \<^verbatim>\<open>clients\<close> a map (its keys distinct), \<^verbatim>\<open>sendToUser\<close> does what
  calling \<^verbatim>\<open>sendToClient\<close> for each id of \<^verbatim>\<open>getClientsByUser\<close> does and returns
  the number of those sends that succeeded, which is the number of the user's
  connections whose write succeeds; \<^verbatim>\<open>getClientsByUser\<close> returns the ids of the
  connections whose \<^verbatim>\<open>userId\<close> is the argument, and no others. A connection with
  another \<^verbatim>\<open>userId\<close> or none is left as it was and sees no call on its handle; a
  connection of the user sees the send.
\<close>

theorem sendToUser_contract:
  assumes "distinct (map fst (clients s))"
  shows "sendToUser now uid ev s = send_each now ev (getClientsByUser uid s) (0, s)
     \<and> stream_calls (snd (sendToUser now uid ev s)) =
         stream_calls s @ calls_since s (snd (sendToUser now uid ev s))
     \<and> set (getClientsByUser uid s) = {k. \<exists>c. map_of (clients s) k = Some c \<and> userId c = Some uid}
     \<and> fst (sendToUser now uid ev s) =
         length (filter (\<lambda>(k, c). userId c = Some uid \<and> writable c) (clients s))
     \<and> (\<forall>k c. map_of (clients s) k = Some c \<and> userId c \<noteq> Some uid \<longrightarrow>
           map_of (clients (snd (sendToUser now uid ev s))) k = Some c
         \<and> (\<forall>x. (k, x) \<notin> set (calls_since s (snd (sendToUser now uid ev s)))))
     \<and> (\<forall>k c. map_of (clients s) k = Some c \<and> userId c = Some uid \<longrightarrow>
           (k, GetDesiredSize) \<in> set (calls_since s (snd (sendToUser now uid ev s))))"
proof -
  have 1: "sendToUser now uid ev s = send_each now ev (getClientsByUser uid s) (0, s)"
    unfolding getClientsByUser_def
    using send_each_closed[of s "[]" "clients s" now ev "\<lambda>k c. userId c = Some uid" 0] assms
    by (simp add: sendToUser_closed[OF assms])
  have 2: "stream_calls (snd (sendToUser now uid ev s)) =
         stream_calls s @ calls_since s (snd (sendToUser now uid ev s))"
    by (simp add: sendToUser_closed[OF assms])
  have 3: "fst (sendToUser now uid ev s) =
         length (filter (\<lambda>(k, c). userId c = Some uid \<and> writable c) (clients s))"
    by (simp add: sendToUser_closed[OF assms])
  have 4: "map_of (clients (snd (sendToUser now uid ev s))) k = Some c
         \<and> (\<forall>x. (k, x) \<notin> set (calls_since s (snd (sendToUser now uid ev s))))"
    if "map_of (clients s) k = Some c \<and> userId c \<noteq> Some uid" for k c
  proof -
    from that have kc: "(k, c) \<in> set (clients s)" by (auto dest: map_of_SomeD)
    show ?thesis using sendToUser_entry[OF assms kc, where now = now and uid = uid and ev = ev] that by simp
  qed
  have 5: "(k, GetDesiredSize) \<in> set (calls_since s (snd (sendToUser now uid ev s)))"
    if "map_of (clients s) k = Some c \<and> userId c = Some uid" for k c
  proof -
    from that have kc: "(k, c) \<in> set (clients s)" by (auto dest: map_of_SomeD)
    show ?thesis
      using sendToUser_entry(1)[OF assms kc, where now = now and uid = uid and ev = ev and x = GetDesiredSize] that
      by (simp add: send_calls_def attempt_calls_def)
  qed
  show ?thesis using 1 2 getClientsByUser_set[OF assms] 3 4 5 by blast
qed

theorem sendToUser_contract_witness:
  "distinct (map fst (clients demo_service))
   \<and> map_of (clients demo_service) ''c2'' = Some demo_c2
   \<and> userId demo_c2 = None
   \<and> map_of (clients (snd (sendToUser (demo_date 5000) ''u1'' (ping_event (demo_date 5000)) demo_service))) ''c2''
       = Some demo_c2
   \<and> (''c2'', GetDesiredSize) \<notin> set (calls_since demo_service
          (snd (sendToUser (demo_date 5000) ''u1'' (ping_event (demo_date 5000)) demo_service)))
   \<and> map_of (clients demo_service) ''c1'' = Some demo_c1
   \<and> userId demo_c1 = Some ''u1''
   \<and> (''c1'', GetDesiredSize) \<in> set (calls_since demo_service
          (snd (sendToUser (demo_date 5000) ''u1'' (ping_event (demo_date 5000)) demo_service)))
   \<and> fst (sendToUser (demo_date 5000) ''u1'' (ping_event (demo_date 5000)) demo_service) = 1"
proof -
  have d: "distinct (map fst (clients demo_service))" by (simp add: demo_service_def)
  have m2: "map_of (clients demo_service) ''c2'' = Some demo_c2"
    and m1: "map_of (clients demo_service) ''c1'' = Some demo_c1"
    by (simp_all add: demo_service_def)
  have u2: "userId demo_c2 = None" and u1: "userId demo_c1 = Some ''u1''"
    by (simp_all add: demo_c1_def demo_c2_def)
  have n2: "userId demo_c2 \<noteq> Some ''u1''" by (simp add: u2)
  note t = sendToUser_contract[OF d, of "demo_date 5000" "''u1''" "ping_event (demo_date 5000)"]
  from t m2 n2 have 1: "map_of (clients (snd (sendToUser (demo_date 5000) ''u1'' (ping_event (demo_date 5000)) demo_service))) ''c2''
       = Some demo_c2"
    and 2: "(''c2'', GetDesiredSize) \<notin> set (calls_since demo_service
          (snd (sendToUser (demo_date 5000) ''u1'' (ping_event (demo_date 5000)) demo_service)))"
    by blast+
  from t m1 u1 have 3: "(''c1'', GetDesiredSize) \<in> set (calls_since demo_service
          (snd (sendToUser (demo_date 5000) ''u1'' (ping_event (demo_date 5000)) demo_service)))"
    by blast
  from t have "fst (sendToUser (demo_date 5000) ''u1'' (ping_event (demo_date 5000)) demo_service) =
         length (filter (\<lambda>(k, c). userId c = Some ''u1'' \<and> writable c) (clients demo_service))"
    by blast
  then have 4: "fst (sendToUser (demo_date 5000) ''u1'' (ping_event (demo_date 5000)) demo_service) = 1"
    by (simp add: demo_simps writable_def)
  from d m2 u2 1 2 m1 u1 3 4 show ?thesis by blast
qed

subsection \<open>C9: statistics of an empty registry\<close>

text \<open>
  C9: when the registry holds no connections, \<^verbatim>\<open>getStats\<close> returns a total of 0,
  an average connection time of 0 and an oldest connection of 0, without dividing by
  zero; and on no registry at all is either of the two a \<^verbatim>\<open>NaN\<close> or an infinity.
\<close>

theorem getStats_empty:
  assumes "clients s = []"
  shows "getStats now s =
     \<lparr>totalClients = 0, authenticatedClients = 0, anonymousClients = 0,
      averageConnectionTime = Some 0, oldestConnection = Some 0\<rparr>
     \<and> averageConnectionTime (getStats now t) \<noteq> None
     \<and> oldestConnection (getStats now t) \<noteq> None"
  using assms getStats_never_NaN[of now t] by (simp add: getStats_def)

theorem getStats_empty_witness:
  "clients (SSEService_new None) = []
   \<and> getStats (demo_date 5000) (SSEService_new None) =
       \<lparr>totalClients = 0, authenticatedClients = 0, anonymousClients = 0,
        averageConnectionTime = Some 0, oldestConnection = Some 0\<rparr>"
proof -
  have e: "clients (SSEService_new None) = []" by (simp add: SSEService_new_def)
  from e getStats_empty[OF e, of "demo_date 5000" demo_service] show ?thesis by blast
qed

subsection \<open>C10: the empty user id\<close>

text \<open>
  C10: a registered connection whose \<^verbatim>\<open>userId\<close> is the empty string counts among
  the anonymous clients of \<^verbatim>\<open>getStats\<close> and not among the authenticated ones
  (without it the first count is one less and the second the same), yet
  \<^verbatim>\<open>getClientsByUser\<close> of the empty string returns its id and \<^verbatim>\<open>sendToUser\<close> of
  the empty string sends to it. So there is a state with no authenticated client and a
  connection that a user id reaches.
\<close>

theorem empty_userId_anonymous_yet_targeted:
  assumes "clients s = pre @ (k, c) # post" and "distinct (map fst (clients s))"
    and "userId c = Some []"
  shows "anonymousClients (getStats now s) = Suc (anonymousClients (getStats now (s\<lparr>clients := pre @ post\<rparr>)))
     \<and> authenticatedClients (getStats now s) = authenticatedClients (getStats now (s\<lparr>clients := pre @ post\<rparr>))
     \<and> k \<in> set (getClientsByUser [] s)
     \<and> (k, GetDesiredSize) \<in> set (calls_since s (snd (sendToUser now [] ev s)))
     \<and> map_of (clients (snd (sendToUser now [] ev s))) k =
         (if writable c then Some (c\<lparr>lastPing := getTime now\<rparr>) else None)
     \<and> (\<exists>t. authenticatedClients (getStats now t) = 0 \<and> getClientsByUser [] t \<noteq> [])"
proof -
  have kc: "(k, c) \<in> set (clients s)" using assms(1) by simp
  have m: "map_of (clients s) k = Some c" using map_of_is_SomeI[OF assms(2) kc] .
  have 1: "anonymousClients (getStats now s) = Suc (anonymousClients (getStats now (s\<lparr>clients := pre @ post\<rparr>)))"
    and 2: "authenticatedClients (getStats now s) = authenticatedClients (getStats now (s\<lparr>clients := pre @ post\<rparr>))"
    using assms(1,3) by (simp_all add: getStats_counts)
  have 3: "k \<in> set (getClientsByUser [] s)"
    using m assms(3) by (simp add: getClientsByUser_set[OF assms(2)])
  have 4: "(k, GetDesiredSize) \<in> set (calls_since s (snd (sendToUser now [] ev s)))"
    using sendToUser_entry(1)[OF assms(2) kc, where now = now and uid = "[]" and ev = ev and x = GetDesiredSize] assms(3)
    by (simp add: send_calls_def attempt_calls_def)
  have 5: "map_of (clients (snd (sendToUser now [] ev s))) k =
         (if writable c then Some (c\<lparr>lastPing := getTime now\<rparr>) else None)"
    using sendToUser_entry(2)[OF assms(2) kc, where now = now and uid = "[]" and ev = ev] assms(3) by simp
  let ?t = "demo_service\<lparr>clients := [(''c3'', demo_c3)]\<rparr>"
  have "authenticatedClients (getStats now ?t) = 0 \<and> getClientsByUser [] ?t \<noteq> []"
    by (simp add: getStats_counts getClientsByUser_def demo_c3_def)
  then have 6: "\<exists>t. authenticatedClients (getStats now t) = 0 \<and> getClientsByUser [] t \<noteq> []" ..
  from 1 2 3 4 5 6 show ?thesis by blast
qed

theorem empty_userId_anonymous_yet_targeted_witness:
  "clients demo_service = [(''c1'', demo_c1), (''c2'', demo_c2)] @ (''c3'', demo_c3) # []
   \<and> userId demo_c3 = Some []
   \<and> anonymousClients (getStats (demo_date 5000) demo_service) = 2
   \<and> authenticatedClients (getStats (demo_date 5000) demo_service) = 1
   \<and> ''c3'' \<in> set (getClientsByUser [] demo_service)
   \<and> map_of (clients (snd (sendToUser (demo_date 5000) [] (ping_event (demo_date 5000)) demo_service))) ''c3''
       = Some (demo_c3\<lparr>lastPing := 5000\<rparr>)"
  using empty_userId_anonymous_yet_targeted
          [of demo_service "[(''c1'', demo_c1), (''c2'', demo_c2)]" "''c3''" demo_c3 "[]"
              "demo_date 5000" "ping_event (demo_date 5000)"]
  by (simp add: demo_service_def demo_c1_def demo_c2_def demo_c3_def getStats_counts writable_def
        open_stream_def demo_date_def)

end
